theory Spec2Isabelle
  imports Complex_Main
begin

section \<open>Bouncy Balls: the physics core of \<^verbatim>\<open>src/balls.c\<close>\<close>

text \<open>
  The development embeds the collision and wall-reflection code of \<^verbatim>\<open>balls.c\<close>:
  \<^verbatim>\<open>moveBall\<close>, \<^verbatim>\<open>overlaps\<close>, \<^verbatim>\<open>norm\<close>, \<^verbatim>\<open>dot\<close>, \<^verbatim>\<open>bounce\<close>, \<^verbatim>\<open>bounceWall\<close> and the
  loop of \<^verbatim>\<open>renderBalls\<close>.

  Conventions of the embedding.
  \<^item> A C \<^verbatim>\<open>double\<close> is a value of the type \<open>double\<close> defined below: NaN, the two
    infinities, or a finite binary64 number. Every arithmetic operation computes the
    exact real result and rounds it once to binary64, to nearest with ties to even (the
    default rounding mode, which the program never changes); a result beyond the range
    is an infinity, and the invalid operations (\<open>0/0\<close>, \<open>\<infinity> - \<infinity>\<close>, \<open>0 \<cdot> \<infinity>\<close>, \<open>\<infinity>/\<infinity>\<close>)
    give NaN. No operation fails: a division by zero returns an infinity or NaN and the
    program goes on.
  \<^item> The two zeros of binary64 are one value here. They compare equal, and the only
    operation that could tell them apart is a division by zero; the only divisor of the
    program is \<^verbatim>\<open>magnitute\<close>, a square root of a sum of two squares, which is never the
    negative zero.
  \<^item> \<^verbatim>\<open>sqrt\<close> is correctly rounded, as IEEE 754 requires, and \<^verbatim>\<open>pow(a, 2)\<close> is the
    correctly rounded square of \<open>a\<close>.
  \<^item> A C \<^verbatim>\<open>int\<close> is an \<^typ>\<open>int\<close>: signed overflow is undefined in C and is outside the
    model. An \<^verbatim>\<open>int\<close> used in a \<^verbatim>\<open>double\<close> expression is converted after the integer
    arithmetic, as C does.
  \<^item> A function that writes through a \<^verbatim>\<open>Ball*\<close> takes the ball and returns the updated
    ball. The array \<^verbatim>\<open>Ball* balls[]\<close> is a list of balls: \<^verbatim>\<open>main\<close> allocates every ball
    separately, so distinct indices never alias.
\<close>

section \<open>Binary64 arithmetic\<close>

subsection \<open>Rounding a real number\<close>

text \<open>The nearest integer, the even one of the two when \<open>r\<close> lies half-way.\<close>

definition round_even :: "real \<Rightarrow> int" where
  "round_even r =
     (let f = \<lfloor>r\<rfloor>; d = r - of_int f
      in if d < 1 / 2 then f else if 1 / 2 < d then f + 1 else if even f then f else f + 1)"

text \<open>
  The binary exponent of \<open>z\<close>, not below that of the smallest normal number. Around \<open>z\<close>
  the binary64 numbers are the multiples of \<open>2 powi (exponent z - 52)\<close>.
\<close>

definition exponent :: "real \<Rightarrow> int" where
  "exponent z = max \<lfloor>log 2 \<bar>z\<bar>\<rfloor> (- 1022)"

text \<open>Rounding to 53 significant bits, with no upper bound on the exponent.\<close>

definition round64 :: "real \<Rightarrow> real" where
  "round64 z =
     (if z = 0 then 0
      else of_int (round_even (z / 2 powi (exponent z - 52))) * 2 powi (exponent z - 52))"

text \<open>The finite binary64 numbers, subnormal ones included.\<close>

definition is_double :: "real \<Rightarrow> bool" where
  "is_double z \<longleftrightarrow>
     (\<exists>m k :: int. \<bar>m\<bar> < 2 ^ 53 \<and> - 1074 \<le> k \<and> k \<le> 971 \<and> z = of_int m * 2 powi k)"

typedef fin64 = "{z :: real. is_double z}"
  morphisms val mk_fin64
  by (rule exI [of _ 0]) (auto simp add: is_double_def intro!: exI [of _ 0])

datatype double = NaN | PInf | NInf | Fin fin64

text \<open>Rounding to a \<open>double\<close>: a rounded value of magnitude \<open>2^1024\<close> or more overflows.\<close>

definition rnd :: "real \<Rightarrow> double" where
  "rnd z =
     (let r = round64 z
      in if 2 ^ 1024 \<le> r then PInf else if r \<le> - (2 ^ 1024) then NInf else Fin (mk_fin64 r))"

text \<open>The double \<open>m \<cdot> 2^k\<close>, for writing a double down bit by bit.\<close>

definition dbl :: "int \<Rightarrow> int \<Rightarrow> double" where
  "dbl m k = Fin (mk_fin64 (of_int m * 2 powi k))"

text \<open>The real value of a finite double (and 0 for the others).\<close>

fun dval :: "double \<Rightarrow> real" where
  "dval (Fin a) = val a"
| "dval d = 0"

fun is_finite :: "double \<Rightarrow> bool" where
  "is_finite (Fin a) = True"
| "is_finite d = False"

subsection \<open>The operations of the program\<close>

text \<open>Conversion of an \<^verbatim>\<open>int\<close>.\<close>

definition double_of_int :: "int \<Rightarrow> double" where
  "double_of_int n = rnd (of_int n)"

fun dneg :: "double \<Rightarrow> double" where
  "dneg (Fin a) = Fin (mk_fin64 (- val a))"
| "dneg NaN = NaN"
| "dneg PInf = NInf"
| "dneg NInf = PInf"

fun dadd :: "double \<Rightarrow> double \<Rightarrow> double" where
  "dadd (Fin a) (Fin b) = rnd (val a + val b)"
| "dadd NaN b = NaN"
| "dadd a NaN = NaN"
| "dadd PInf NInf = NaN"
| "dadd NInf PInf = NaN"
| "dadd PInf b = PInf"
| "dadd a PInf = PInf"
| "dadd NInf b = NInf"
| "dadd a NInf = NInf"

fun dsub :: "double \<Rightarrow> double \<Rightarrow> double" where
  "dsub (Fin a) (Fin b) = rnd (val a - val b)"
| "dsub NaN b = NaN"
| "dsub a NaN = NaN"
| "dsub PInf PInf = NaN"
| "dsub NInf NInf = NaN"
| "dsub PInf b = PInf"
| "dsub a PInf = NInf"
| "dsub NInf b = NInf"
| "dsub a NInf = PInf"

fun dmul :: "double \<Rightarrow> double \<Rightarrow> double" where
  "dmul (Fin a) (Fin b) = rnd (val a * val b)"
| "dmul NaN b = NaN"
| "dmul a NaN = NaN"
| "dmul PInf (Fin b) = (if val b = 0 then NaN else if 0 < val b then PInf else NInf)"
| "dmul NInf (Fin b) = (if val b = 0 then NaN else if 0 < val b then NInf else PInf)"
| "dmul (Fin a) PInf = (if val a = 0 then NaN else if 0 < val a then PInf else NInf)"
| "dmul (Fin a) NInf = (if val a = 0 then NaN else if 0 < val a then NInf else PInf)"
| "dmul PInf PInf = PInf"
| "dmul PInf NInf = NInf"
| "dmul NInf PInf = NInf"
| "dmul NInf NInf = PInf"

text \<open>Division. A zero divisor is the positive zero (see the conventions above).\<close>

fun ddiv :: "double \<Rightarrow> double \<Rightarrow> double" where
  "ddiv (Fin a) (Fin b) =
     (if val b = 0 then (if val a = 0 then NaN else if 0 < val a then PInf else NInf)
      else rnd (val a / val b))"
| "ddiv NaN b = NaN"
| "ddiv a NaN = NaN"
| "ddiv (Fin a) PInf = Fin (mk_fin64 0)"
| "ddiv (Fin a) NInf = Fin (mk_fin64 0)"
| "ddiv PInf (Fin b) = (if 0 \<le> val b then PInf else NInf)"
| "ddiv NInf (Fin b) = (if 0 \<le> val b then NInf else PInf)"
| "ddiv PInf b = NaN"
| "ddiv NInf b = NaN"

fun dsqrt :: "double \<Rightarrow> double" where
  "dsqrt (Fin a) = (if val a < 0 then NaN else rnd (sqrt (val a)))"
| "dsqrt PInf = PInf"
| "dsqrt NInf = NaN"
| "dsqrt NaN = NaN"

text \<open>\<^verbatim>\<open>pow(a, 2)\<close>.\<close>

fun pow_2 :: "double \<Rightarrow> double" where
  "pow_2 (Fin a) = rnd ((val a)\<^sup>2)"
| "pow_2 NaN = NaN"
| "pow_2 PInf = PInf"
| "pow_2 NInf = PInf"

text \<open>The comparisons \<^verbatim>\<open><\<close> and \<^verbatim>\<open>>\<close>: false as soon as an operand is NaN.\<close>

fun dless :: "double \<Rightarrow> double \<Rightarrow> bool" where
  "dless (Fin a) (Fin b) = (val a < val b)"
| "dless NaN b = False"
| "dless a NaN = False"
| "dless a NInf = False"
| "dless NInf b = True"
| "dless PInf b = False"
| "dless a PInf = True"

definition dgreater :: "double \<Rightarrow> double \<Rightarrow> bool" where
  "dgreater a b = dless b a"

section \<open>The program\<close>

subsection \<open>Constants and data\<close>

datatype error = OutOfBounds

definition SCREEN_WIDTH :: int where
  "SCREEN_WIDTH = 1200"

definition SCREEN_HEIGHT :: int where
  "SCREEN_HEIGHT = 1200"

text \<open>The macro \<^verbatim>\<open>pyth(a, b) = sqrt(pow(a, 2) + pow(b, 2))\<close>.\<close>

definition pyth :: "double \<Rightarrow> double \<Rightarrow> double" where
  "pyth a b = dsqrt (dadd (pow_2 a) (pow_2 b))"

record vec2 =
  x :: double
  y :: double

record Ball =
  radius :: int
  pos :: vec2
  dir :: vec2
  subspaces :: "int list"

subsection \<open>Motion, overlap test and vector helpers\<close>

definition moveBall :: "Ball \<Rightarrow> Ball" where
  "moveBall ball =
     (let b1 = ball\<lparr>pos := (pos ball)\<lparr>x := dadd (x (pos ball)) (x (dir ball))\<rparr>\<rparr>
      in b1\<lparr>pos := (pos b1)\<lparr>y := dadd (y (pos b1)) (y (dir b1))\<rparr>\<rparr>)"

definition overlaps :: "Ball \<Rightarrow> Ball \<Rightarrow> bool" where
  "overlaps a b =
     (let c = pyth (dsub (x (pos a)) (x (pos b))) (dsub (y (pos a)) (y (pos b)))
      in dless c (double_of_int (radius a + radius b)))"

text \<open>
  \<^verbatim>\<open>norm\<close> (named \<open>norm_vec2\<close> here, \<open>norm\<close> being a constant of the library). It has no
  test of \<^verbatim>\<open>magnitute\<close>: it divides and returns.
\<close>

definition norm_vec2 :: "vec2 \<Rightarrow> vec2" where
  "norm_vec2 v =
     (let magnitute = dsqrt (dadd (pow_2 (x v)) (pow_2 (y v)));
          v1 = v\<lparr>x := ddiv (x v) magnitute\<rparr>
      in v1\<lparr>y := ddiv (y v1) magnitute\<rparr>)"

definition dot :: "vec2 \<Rightarrow> vec2 \<Rightarrow> double" where
  "dot v1 v2 = dadd (dmul (x v1) (x v2)) (dmul (y v1) (y v2))"

subsection \<open>The collision resolver\<close>

definition bounce :: "Ball \<Rightarrow> Ball \<Rightarrow> Ball \<times> Ball" where
  "bounce a b =
     (let n = norm_vec2 \<lparr>x = dsub (x (pos b)) (x (pos a)), y = dsub (y (pos b)) (y (pos a))\<rparr>;
          scalar_product = dsub (dot (dir a) n) (dot (dir b) n);
          a1 = a\<lparr>dir := (dir a)\<lparr>x := dsub (x (dir a)) (dmul scalar_product (x n))\<rparr>\<rparr>;
          a2 = a1\<lparr>dir := (dir a1)\<lparr>y := dsub (y (dir a1)) (dmul scalar_product (y n))\<rparr>\<rparr>;
          b1 = b\<lparr>dir := (dir b)\<lparr>x := dadd (x (dir b)) (dmul scalar_product (x n))\<rparr>\<rparr>;
          b2 = b1\<lparr>dir := (dir b1)\<lparr>y := dadd (y (dir b1)) (dmul scalar_product (y n))\<rparr>\<rparr>
      in (a2, b2))"

subsection \<open>The wall reflector\<close>

definition bounceWall :: "Ball \<Rightarrow> Ball" where
  "bounceWall a =
     (let left = dsub (x (pos a)) (double_of_int (radius a));
          right = dadd (x (pos a)) (double_of_int (radius a));
          up = dsub (y (pos a)) (double_of_int (radius a));
          down = dadd (y (pos a)) (double_of_int (radius a));
          a1 = (if dless left (double_of_int 0) \<or> dgreater right (double_of_int SCREEN_WIDTH) then
                  (let f = a\<lparr>dir := (dir a)\<lparr>x := dmul (x (dir a)) (double_of_int (- 1))\<rparr>\<rparr>
                   in if dgreater (x (dir f)) (double_of_int 0)
                      then f\<lparr>pos := (pos f)\<lparr>x := double_of_int (radius f + 1)\<rparr>\<rparr>
                      else f\<lparr>pos := (pos f)\<lparr>x := double_of_int (SCREEN_WIDTH - radius f - 1)\<rparr>\<rparr>)
                else a)
      in if dless up (double_of_int 0) \<or> dgreater down (double_of_int SCREEN_HEIGHT) then
           (let g = a1\<lparr>dir := (dir a1)\<lparr>y := dmul (y (dir a1)) (double_of_int (- 1))\<rparr>\<rparr>
            in if dgreater (y (dir g)) (double_of_int 0)
               then g\<lparr>pos := (pos g)\<lparr>y := double_of_int (radius g + 1)\<rparr>\<rparr>
               else g\<lparr>pos := (pos g)\<lparr>y := double_of_int (SCREEN_HEIGHT - radius g - 1)\<rparr>\<rparr>)
         else a1)"

subsection \<open>The simulation step\<close>

text \<open>
  \<^verbatim>\<open>renderBalls\<close> returns the updated balls together with the calls it made, in order: the
  renderer colour, the resolver, the drawing of a ball (with the ball as it is drawn),
  the console output of lines 303 to 307 (as one entry carrying the ball's subspace
  indices), the integrator and the wall reflector.
\<close>

datatype call =
    SDL_SetRenderDrawColor int int int int
  | Call_bounce nat nat
  | Call_drawBall nat Ball
  | Call_printf "int list"
  | Call_moveBall nat
  | Call_bounceWall nat

text \<open>
  The inner loop \<^verbatim>\<open>for (int j = 0; j < amnt; j++)\<close> for a fixed \<open>i\<close>, over the indices still
  to visit: \<^verbatim>\<open>continue\<close> at \<open>i = j\<close>, \<^verbatim>\<open>break\<close> after the first \<^verbatim>\<open>bounce\<close>.
\<close>

fun scan_others :: "nat \<Rightarrow> nat list \<Rightarrow> Ball list \<Rightarrow> call list \<times> Ball list" where
  "scan_others i [] balls = ([], balls)"
| "scan_others i (j # js) balls =
     (if i = j then scan_others i js balls
      else if overlaps (balls ! i) (balls ! j) then
        (case bounce (balls ! i) (balls ! j) of
           (a, b) \<Rightarrow>
             ([SDL_SetRenderDrawColor 255 0 0 255, Call_bounce i j], balls[i := a, j := b]))
      else
        (case scan_others i js balls of
           (cs, balls') \<Rightarrow> (SDL_SetRenderDrawColor 0 0 255 255 # cs, balls')))"

text \<open>One iteration of the outer loop, lines 288 to 309.\<close>

definition render_ball :: "nat \<Rightarrow> nat \<Rightarrow> Ball list \<Rightarrow> call list \<times> Ball list" where
  "render_ball amnt i balls =
     (case scan_others i [0..<amnt] balls of
        (cs, b1) \<Rightarrow>
          (let b2 = b1[i := moveBall (b1 ! i)];
               b3 = b2[i := bounceWall (b2 ! i)]
           in (cs @ [Call_drawBall i (b1 ! i), Call_printf (subspaces (b1 ! i)),
                     Call_moveBall i, Call_bounceWall i], b3)))"

text \<open>The outer loop \<^verbatim>\<open>for (int i = 0; i < amnt; i++)\<close>, over the indices still to visit.\<close>

fun render_from :: "nat \<Rightarrow> nat list \<Rightarrow> Ball list \<Rightarrow> call list \<times> Ball list" where
  "render_from amnt [] balls = ([], balls)"
| "render_from amnt (i # is) balls =
     (case render_ball amnt i balls of
        (cs, b1) \<Rightarrow>
          (case render_from amnt is b1 of
             (cs', b2) \<Rightarrow> (cs @ cs', b2)))"

text \<open>
  \<^verbatim>\<open>renderBalls(amnt, balls)\<close>. A negative \<open>amnt\<close> runs no iteration. An \<open>amnt\<close> beyond the
  array reads past its end, which is undefined in C: the model stops with \<open>OutOfBounds\<close>.
  Nothing else stops the loop.
\<close>

definition renderBalls :: "int \<Rightarrow> Ball list \<Rightarrow> error + (call list \<times> Ball list)" where
  "renderBalls amnt balls =
     (if nat amnt \<le> length balls then Inr (render_from (nat amnt) [0..<nat amnt] balls)
      else Inl OutOfBounds)"

fun is_bounce :: "call \<Rightarrow> bool" where
  "is_bounce (Call_bounce i j) = True"
| "is_bounce c = False"

section \<open>The simulation step as the specification words it\<close>

text \<open>
  Sections 4.2, 4.3 and 4.6 of the specification, written from its words and not from
  the code; \<open>renderBalls\<close> is compared with them below.
\<close>

text \<open>Section 4.2, the integrator: \<open>position += velocity\<close>.\<close>

definition spec_move :: "Ball \<Rightarrow> Ball" where
  "spec_move b =
     b\<lparr>pos := \<lparr>x = dadd (x (pos b)) (x (dir b)), y = dadd (y (pos b)) (y (dir b))\<rparr>\<rparr>"

text \<open>
  Section 4.3, the reflector on one axis, for a centre \<open>c\<close> and a velocity \<open>v\<close> on that axis:
  if an edge \<open>c - r\<close> or \<open>c + r\<close> is beyond the arena \<open>[0, extent]\<close>, negate the velocity, then
  put the centre at \<open>r + 1\<close> when the new velocity is positive and at \<open>extent - r - 1\<close>
  otherwise. (The specification names the positive and the negative sign; a velocity
  that is neither is treated as the reference does.)
\<close>

definition spec_reflect_axis :: "int \<Rightarrow> int \<Rightarrow> double \<times> double \<Rightarrow> double \<times> double" where
  "spec_reflect_axis extent r cv =
     (case cv of (c, v) \<Rightarrow>
        if dless (dsub c (double_of_int r)) (double_of_int 0)
           \<or> dgreater (dadd c (double_of_int r)) (double_of_int extent)
        then (if dgreater (dneg v) (double_of_int 0) then double_of_int (r + 1)
              else double_of_int (extent - r - 1), dneg v)
        else (c, v))"

text \<open>The two axes are reflected independently.\<close>

definition spec_reflect :: "Ball \<Rightarrow> Ball" where
  "spec_reflect b =
     (case spec_reflect_axis SCREEN_WIDTH (radius b) (x (pos b), x (dir b)) of
        (cx, vx) \<Rightarrow>
          (case spec_reflect_axis SCREEN_HEIGHT (radius b) (y (pos b), y (dir b)) of
             (cy, vy) \<Rightarrow> b\<lparr>pos := \<lparr>x = cx, y = cy\<rparr>, dir := \<lparr>x = vx, y = vy\<rparr>\<rparr>))"

text \<open>
  Section 4.6, for body \<open>i\<close>: find the first \<open>j \<noteq> i\<close>, in index order, that overlaps \<open>i\<close>; if
  there is one, resolve the pair \<open>(i, j)\<close> and scan no further; then draw \<open>i\<close>, integrate
  \<open>i\<close>, reflect \<open>i\<close>. The first overlap is taken with \<^const>\<open>find\<close>; there is no loop over \<open>j\<close>.
\<close>

definition spec_first_overlap :: "nat \<Rightarrow> nat \<Rightarrow> Ball list \<Rightarrow> nat option" where
  "spec_first_overlap amnt i balls =
     find (\<lambda>j. j \<noteq> i \<and> overlaps (balls ! i) (balls ! j)) [0..<amnt]"

definition spec_step_ball :: "nat \<Rightarrow> nat \<Rightarrow> Ball list \<Rightarrow> call list \<times> Ball list" where
  "spec_step_ball amnt i balls =
     (case spec_first_overlap amnt i balls of
        None \<Rightarrow>
          ([Call_drawBall i (balls ! i), Call_moveBall i, Call_bounceWall i],
           balls[i := spec_reflect (spec_move (balls ! i))])
      | Some j \<Rightarrow>
          (case bounce (balls ! i) (balls ! j) of
             (a, b) \<Rightarrow>
               ([Call_bounce i j, Call_drawBall i a, Call_moveBall i, Call_bounceWall i],
                balls[j := b, i := spec_reflect (spec_move a)])))"

fun spec_step_from :: "nat \<Rightarrow> nat list \<Rightarrow> Ball list \<Rightarrow> call list \<times> Ball list" where
  "spec_step_from amnt [] balls = ([], balls)"
| "spec_step_from amnt (i # is) balls =
     (case spec_step_ball amnt i balls of
        (cs, b1) \<Rightarrow>
          (case spec_step_from amnt is b1 of
             (cs', b2) \<Rightarrow> (cs @ cs', b2)))"

definition spec_simulation_step :: "int \<Rightarrow> Ball list \<Rightarrow> error + (call list \<times> Ball list)" where
  "spec_simulation_step amnt balls =
     (if nat amnt \<le> length balls then Inr (spec_step_from (nat amnt) [0..<nat amnt] balls)
      else Inl OutOfBounds)"

text \<open>
  The specification's step names the resolver, the drawing, the integrator and the
  reflector; the colour of the renderer and the console output are not part of it.
\<close>

fun is_step_call :: "call \<Rightarrow> bool" where
  "is_step_call (SDL_SetRenderDrawColor r g b al) = False"
| "is_step_call (Call_printf s) = False"
| "is_step_call c = True"

definition step_calls :: "error + (call list \<times> Ball list) \<Rightarrow> error + (call list \<times> Ball list)" where
  "step_calls r = (case r of Inl e \<Rightarrow> Inl e | Inr (cs, balls) \<Rightarrow> Inr (filter is_step_call cs, balls))"

section \<open>Overlap conditions on a whole collection\<close>

text \<open>No two of the first \<open>n\<close> balls overlap.\<close>

definition no_overlap :: "nat \<Rightarrow> Ball list \<Rightarrow> bool" where
  "no_overlap n balls =
     list_all (\<lambda>i. list_all (\<lambda>j. i = j \<or> \<not> overlaps (balls ! i) (balls ! j)) [0..<n]) [0..<n]"

text \<open>What one frame does to a ball that takes part in no collision.\<close>

definition advance :: "Ball \<Rightarrow> Ball" where
  "advance b = bounceWall (moveBall b)"

text \<open>
  No ball overlaps another at the moment it is scanned: when the loop reaches \<open>i\<close>, the
  balls before \<open>i\<close> have been moved and reflected, the balls after \<open>i\<close> have not.
\<close>

definition no_overlap_when_scanned :: "nat \<Rightarrow> Ball list \<Rightarrow> bool" where
  "no_overlap_when_scanned n balls =
     list_all (\<lambda>i. list_all (\<lambda>j. i = j \<or>
        \<not> overlaps (balls ! i) (if j < i then advance (balls ! j) else balls ! j)) [0..<n]) [0..<n]"

text \<open>The collection after the loop has advanced the first \<open>k\<close> balls and no ball collided.\<close>

definition advanced :: "nat \<Rightarrow> Ball list \<Rightarrow> Ball list" where
  "advanced k balls = map advance (take k balls) @ drop k balls"

section \<open>Facts about rounding\<close>

subsection \<open>Nearest integers\<close>

lemma round_even_near: "\<bar>of_int (round_even r) - r\<bar> \<le> 1 / 2"
  unfolding round_even_def Let_def by (auto simp: abs_if) linarith+

lemma round_even_eqI:
  assumes "\<bar>r - of_int n\<bar> < 1 / 2"
  shows "round_even r = n"
proof -
  have "\<lfloor>r\<rfloor> = n \<or> \<lfloor>r\<rfloor> = n - 1" using assms by linarith
  then show ?thesis
  proof
    assume f: "\<lfloor>r\<rfloor> = n"
    with assms have "r - of_int n < 1 / 2" by linarith
    with f show ?thesis by (simp add: round_even_def Let_def)
  next
    assume f: "\<lfloor>r\<rfloor> = n - 1"
    from assms have "1 / 2 < r - (of_int n - 1)" by linarith
    with f show ?thesis by (simp add: round_even_def Let_def)
  qed
qed

lemma round_even_of_int [simp]: "round_even (of_int n) = n"
  by (rule round_even_eqI) simp

lemma round_even_tie:
  assumes "r = of_int n + 1 / 2"
  shows "round_even r = (if even n then n else n + 1)"
proof -
  have "\<lfloor>r\<rfloor> = n" using assms by linarith
  with assms show ?thesis by (simp add: round_even_def Let_def)
qed

lemma round_even_minus: "round_even (- r) = - round_even r"
proof (cases "r = of_int \<lfloor>r\<rfloor>")
  case True
  then have "- r = of_int (- \<lfloor>r\<rfloor>)" by simp
  then have "round_even (- r) = - \<lfloor>r\<rfloor>" by (metis round_even_of_int)
  moreover have "round_even r = \<lfloor>r\<rfloor>" using True by (metis round_even_of_int)
  ultimately show ?thesis by simp
next
  case False
  have "\<lfloor>- r\<rfloor> = - \<lceil>r\<rceil>" by (simp add: ceiling_def)
  also have "\<lceil>r\<rceil> = \<lfloor>r\<rfloor> + 1" using False by (simp add: ceiling_altdef)
  finally have fl: "\<lfloor>- r\<rfloor> = - \<lfloor>r\<rfloor> - 1" by simp
  have d: "0 < r - of_int \<lfloor>r\<rfloor>" "r - of_int \<lfloor>r\<rfloor> < 1"
    using False by linarith+
  show ?thesis
    unfolding round_even_def Let_def fl using d
    by (auto simp: algebra_simps)
qed

subsection \<open>Exponents and powers of two\<close>

lemma two_powr_int: "(2::real) powr real_of_int k = 2 powi k"
  by (rule powr_real_of_int') simp_all

lemma floor_log2_iff:
  assumes "0 < a"
  shows "\<lfloor>log 2 a\<rfloor> = k \<longleftrightarrow> 2 powi k \<le> a \<and> a < 2 powi (k + 1)"
proof -
  have "\<lfloor>log 2 a\<rfloor> = k \<longleftrightarrow> 2 powr real_of_int k \<le> a \<and> a < 2 powr real_of_int (k + 1)"
    by (rule floor_log_eq_powr_iff) (use assms in simp_all)
  then show ?thesis by (simp only: two_powr_int)
qed

lemma floor_log2_eqI:
  assumes "2 powi k \<le> a" "a < 2 powi (k + 1)"
  shows "\<lfloor>log 2 a\<rfloor> = k"
proof -
  have "0 < (2::real) powi k" by (rule zero_less_power_int) simp
  with assms(1) have "0 < a" by linarith
  then show ?thesis using assms by (simp only: floor_log2_iff)
qed

lemma floor_log2_bounds:
  assumes "0 < a"
  shows "2 powi \<lfloor>log 2 a\<rfloor> \<le> a" "a < 2 powi (\<lfloor>log 2 a\<rfloor> + 1)"
  using floor_log2_iff [OF assms, of "\<lfloor>log 2 a\<rfloor>"] by simp_all

lemma exponent_normal:
  assumes "2 powi e \<le> \<bar>z\<bar>" "\<bar>z\<bar> < 2 powi (e + 1)" "- 1022 \<le> e"
  shows "exponent z = e"
  using floor_log2_eqI [OF assms(1,2)] assms(3) by (simp add: exponent_def)

lemma exponent_subnormal:
  assumes "z \<noteq> 0" "\<bar>z\<bar> < 2 powi (- 1022)"
  shows "exponent z = - 1022"
proof -
  have "0 < \<bar>z\<bar>" using assms by simp
  from floor_log2_bounds(1) [OF this] assms(2)
  have "(2::real) powi \<lfloor>log 2 \<bar>z\<bar>\<rfloor> < 2 powi (- 1022)" by linarith
  then have "\<lfloor>log 2 \<bar>z\<bar>\<rfloor> < - 1022"
    by (smt (verit) power_int_increasing)
  then show ?thesis by (simp add: exponent_def)
qed

lemma round64_normal:
  assumes "2 powi (k + 52) \<le> \<bar>z\<bar>" "\<bar>z\<bar> < 2 powi (k + 53)" "- 1074 \<le> k"
    and "\<bar>z / 2 powi k - of_int m\<bar> < 1 / 2"
  shows "round64 z = of_int m * 2 powi k"
proof -
  have "0 < (2::real) powi (k + 52)" by (rule zero_less_power_int) simp
  with assms(1) have "0 < \<bar>z\<bar>" by linarith
  then have nz: "z \<noteq> 0" by simp
  have "exponent z = k + 52"
    using assms(1,2,3) by (intro exponent_normal) (simp_all add: algebra_simps)
  moreover have "round_even (z / 2 powi k) = m"
    using assms(4) by (rule round_even_eqI)
  ultimately show ?thesis using nz by (simp add: round64_def)
qed

lemma round64_subnormal:
  assumes "\<bar>z\<bar> < 2 powi (- 1022)" and "\<bar>z / 2 powi (- 1074) - of_int m\<bar> < 1 / 2"
  shows "round64 z = of_int m * 2 powi (- 1074)"
proof (cases "z = 0")
  case True
  with assms(2) have "\<bar>real_of_int m\<bar> < 1 / 2" by simp
  then have "m = 0" by linarith
  with True show ?thesis by (simp add: round64_def)
next
  case False
  then have "exponent z = - 1022" using assms(1) by (rule exponent_subnormal)
  moreover have "round_even (z / 2 powi (- 1074)) = m"
    using assms(2) by (rule round_even_eqI)
  ultimately show ?thesis using False by (simp add: round64_def)
qed

lemma round64_minus: "round64 (- z) = - round64 z"
  by (simp add: round64_def exponent_def round_even_minus)

lemma exponent_ge: "- 1022 \<le> exponent z"
  by (simp add: exponent_def)

lemma exponent_upper:
  assumes "z \<noteq> 0"
  shows "\<bar>z\<bar> < 2 powi (exponent z + 1)"
proof -
  have "0 < \<bar>z\<bar>" using assms by simp
  from floor_log2_bounds(2) [OF this]
  have "\<bar>z\<bar> < 2 powi (\<lfloor>log 2 \<bar>z\<bar>\<rfloor> + 1)" .
  also have "\<dots> \<le> 2 powi (exponent z + 1)"
    by (rule power_int_increasing) (simp_all add: exponent_def)
  finally show ?thesis .
qed

lemma exponent_lower:
  assumes "z \<noteq> 0" "- 1022 < exponent z"
  shows "2 powi exponent z \<le> \<bar>z\<bar>"
proof -
  from assms(2) have e: "exponent z = \<lfloor>log 2 \<bar>z\<bar>\<rfloor>"
    by (simp add: exponent_def max_def split: if_splits)
  have "0 < \<bar>z\<bar>" using assms(1) by simp
  from floor_log2_bounds(1) [OF this] e show ?thesis by simp
qed

lemma power_int_split:
  fixes k j :: int
  shows "(2::real) powi k = 2 powi (k - j) * 2 powi j"
  by (simp flip: power_int_add)

lemma round64_exact:
  assumes "is_double z"
  shows "round64 z = z"
proof (cases "z = 0")
  case True
  then show ?thesis by (simp add: round64_def)
next
  case False
  from assms obtain m k :: int
    where m: "\<bar>m\<bar> < 2 ^ 53" and k: "- 1074 \<le> k" and z: "z = of_int m * 2 powi k"
    by (auto simp: is_double_def)
  define e where "e = exponent z"
  have "\<bar>z\<bar> = real_of_int \<bar>m\<bar> * 2 powi k"
    by (simp add: z abs_mult)
  also have "\<dots> < 2 ^ 53 * 2 powi k"
    using m by (intro mult_strict_right_mono) (simp_all flip: of_int_less_iff [where 'a = real])
  also have "\<dots> = 2 powi (k + 53)"
    by (simp add: power_int_add)
  finally have up: "\<bar>z\<bar> < 2 powi (k + 53)" .
  have "e \<le> k + 52"
  proof (cases "- 1022 < e")
    case True
    with False have "2 powi e \<le> \<bar>z\<bar>" unfolding e_def by (intro exponent_lower)
    with up have "(2::real) powi e < 2 powi (k + 53)" by linarith
    then have "e < k + 53" by (smt (verit) power_int_increasing)
    then show ?thesis by simp
  next
    case False
    with k show ?thesis by simp
  qed
  then obtain j :: nat where j: "k = (e - 52) + int j"
    by (metis add.commute diff_le_eq zle_iff_zadd)
  have "z / 2 powi (e - 52) = of_int m * 2 ^ j"
    by (simp add: z j power_int_add)
  also have "\<dots> = of_int (m * 2 ^ j)" by simp
  finally have "round_even (z / 2 powi (e - 52)) = m * 2 ^ j"
    by (simp only: round_even_of_int)
  then have "round64 z = of_int (m * 2 ^ j) * 2 powi (e - 52)"
    using False by (simp add: round64_def e_def)
  also have "\<dots> = z"
    by (simp add: z j power_int_add)
  finally show ?thesis .
qed

lemma round64_error_quantum:
  "\<bar>round64 z - z\<bar> \<le> 2 powi (exponent z - 53)"
proof (cases "z = 0")
  case True
  then show ?thesis by (simp add: round64_def)
next
  case False
  define q :: real where "q = 2 powi (exponent z - 52)"
  have q: "0 < q" by (simp add: q_def)
  have "round64 z - z = (of_int (round_even (z / q)) - z / q) * q"
    using False q by (simp add: round64_def q_def left_diff_distrib)
  then have "\<bar>round64 z - z\<bar> = \<bar>of_int (round_even (z / q)) - z / q\<bar> * q"
    using q by (simp add: abs_mult)
  also have "\<dots> \<le> (1 / 2) * q"
    using q round_even_near [of "z / q"] by (intro mult_right_mono) simp_all
  also have "\<dots> = 2 powi (exponent z - 53)"
    by (simp add: q_def power_int_diff)
  finally show ?thesis .
qed

lemma powi2_add: "(2::real) powi (a + b) = 2 powi a * 2 powi b"
  by (rule power_int_add) simp

lemma powi2_diff: "(2::real) powi (a - b) = 2 powi a / 2 powi b"
  by (rule power_int_diff) simp

lemma powi2_pos: "0 < (2::real) powi a"
  by (rule zero_less_power_int) simp

lemma powi2_minus53: "(2::real) powi (e - 53) = 2 powi e / 2 ^ 53"
  using powi2_diff [of e 53] by simp

lemma powi2_ratio53: "(2::real) powi (e + 1) / 2 powi (e - 52) = 2 ^ 53"
proof -
  have "(2::real) powi (e + 1) = 2 powi (e - 52) * 2 powi 53"
    using powi2_add [of "e - 52" 53] by (simp add: add.commute)
  then show ?thesis using powi2_pos [of "e - 52"] by simp
qed

lemma powi2_ratio52: "(2::real) powi e / 2 powi (e - 52) = 2 ^ 52"
proof -
  have "(2::real) powi e = 2 powi (e - 52) * 2 powi 52"
    using powi2_add [of "e - 52" 52] by simp
  then show ?thesis using powi2_pos [of "e - 52"] by simp
qed

lemma powi2_half: "(1 / 2) * (2::real) powi (e - 52) = 2 powi (e - 53)"
proof -
  have "(2::real) powi (e - 52) = 2 powi (e - 53) * 2 powi 1"
    using powi2_add [of "e - 53" 1] by simp
  then show ?thesis by simp
qed

lemma powi2_double: "(2::real) powi (e - 52) * 2 = 2 powi (e - 51)"
  using powi2_add [of "e - 52" 1] by simp

lemma powi2_53_times: "(2::real) ^ 53 * 2 powi (e - 52) = 2 powi (e + 1)"
  using powi2_add [of 53 "e - 52"] by (simp add: add.commute)

lemma powi2_52_times: "(2::real) ^ 52 * 2 powi (e - 52) = 2 powi e"
  using powi2_add [of 52 "e - 52"] by simp

lemma two_powi_less_iff: "(2::real) powi a < 2 powi b \<longleftrightarrow> a < b"
proof
  assume l: "(2::real) powi a < 2 powi b"
  show "a < b"
  proof (rule ccontr)
    assume "\<not> a < b"
    then have "(2::real) powi b \<le> 2 powi a" by (intro power_int_increasing) simp_all
    with l show False by simp
  qed
next
  assume "a < b"
  then show "(2::real) powi a < 2 powi b" by (intro power_int_strict_increasing) simp_all
qed

lemma two_powi_le_iff: "(2::real) powi a \<le> 2 powi b \<longleftrightarrow> a \<le> b"
  using two_powi_less_iff [of b a] by (simp add: not_less [symmetric])

subsection \<open>Rounding error and representable results\<close>

lemma round64_error:
  "\<bar>round64 z - z\<bar> \<le> \<bar>z\<bar> / 2 ^ 53 + 2 powi (- 1075)"
proof (cases "z \<noteq> 0 \<and> - 1022 < exponent z")
  case True
  then have "2 powi exponent z \<le> \<bar>z\<bar>" by (intro exponent_lower) simp_all
  then have "2 powi exponent z / 2 ^ 53 \<le> \<bar>z\<bar> / 2 ^ 53"
    by (rule divide_right_mono) simp
  moreover note powi2_minus53 [of "exponent z"]
  moreover have "0 < (2::real) powi (- 1075)" by (rule powi2_pos)
  ultimately show ?thesis using round64_error_quantum [of z] by linarith
next
  case False
  show ?thesis
  proof (cases "z = 0")
    case True
    have "0 < (2::real) powi (- 1075)" by (rule powi2_pos)
    with True show ?thesis by (simp add: round64_def)
  next
    case nz: False
    with False exponent_ge [of z] have "exponent z = - 1022" by simp
    with round64_error_quantum [of z] have "\<bar>round64 z - z\<bar> \<le> 2 powi (- 1075)"
      by simp
    moreover have "0 \<le> \<bar>z\<bar> / 2 ^ 53" by simp
    ultimately show ?thesis by linarith
  qed
qed

lemma round64_error_normal:
  assumes "2 powi (- 1022) \<le> \<bar>z\<bar>"
  shows "\<bar>round64 z - z\<bar> \<le> \<bar>z\<bar> / 2 ^ 53"
proof -
  have "0 < (2::real) powi (- 1022)" by (rule powi2_pos)
  with assms have "0 < \<bar>z\<bar>" by linarith
  then have nz: "z \<noteq> 0" by simp
  have "2 powi exponent z \<le> \<bar>z\<bar>"
  proof (cases "- 1022 < exponent z")
    case True
    with nz show ?thesis by (intro exponent_lower)
  next
    case False
    with exponent_ge [of z] have "exponent z = - 1022" by simp
    with assms show ?thesis by simp
  qed
  then have "2 powi exponent z / 2 ^ 53 \<le> \<bar>z\<bar> / 2 ^ 53"
    by (rule divide_right_mono) simp
  with powi2_minus53 [of "exponent z"] round64_error_quantum [of z] show ?thesis
    by linarith
qed

lemma round_even_abs_le:
  assumes "\<bar>r\<bar> \<le> of_int n"
  shows "\<bar>round_even r\<bar> \<le> n"
proof -
  have "\<bar>real_of_int (round_even r)\<bar> \<le> \<bar>r\<bar> + 1 / 2"
    using round_even_near [of r] by linarith
  with assms have "\<bar>real_of_int (round_even r)\<bar> < of_int n + 1" by linarith
  then have "real_of_int \<bar>round_even r\<bar> < real_of_int (n + 1)" by simp
  then have "\<bar>round_even r\<bar> < n + 1" by (simp only: of_int_less_iff)
  then show ?thesis by simp
qed

lemma round_even_abs_ge:
  assumes "of_int n \<le> \<bar>r\<bar>"
  shows "n \<le> \<bar>round_even r\<bar>"
proof -
  have "\<bar>r\<bar> - 1 / 2 \<le> \<bar>real_of_int (round_even r)\<bar>"
    using round_even_near [of r] by linarith
  with assms have "of_int n - 1 < \<bar>real_of_int (round_even r)\<bar>" by linarith
  then have "real_of_int (n - 1) < real_of_int \<bar>round_even r\<bar>" by simp
  then have "n - 1 < \<bar>round_even r\<bar>" by (simp only: of_int_less_iff)
  then show ?thesis by simp
qed

lemma is_doubleI:
  assumes "\<bar>m\<bar> < 2 ^ 53" "- 1074 \<le> k" "k \<le> 971"
  shows "is_double (of_int m * 2 powi k)"
  using assms unfolding is_double_def by blast

lemma is_double_0 [simp]: "is_double 0"
  using is_doubleI [of 0 0] by simp

lemma is_double_minus:
  assumes "is_double z"
  shows "is_double (- z)"
proof -
  from assms obtain m k :: int
    where "\<bar>m\<bar> < 2 ^ 53" "- 1074 \<le> k" "k \<le> 971" and z: "z = of_int m * 2 powi k"
    unfolding is_double_def by blast
  then have "is_double (of_int (- m) * 2 powi k)"
    by (intro is_doubleI) simp_all
  then show ?thesis by (simp add: z)
qed

lemma round64_is_double:
  assumes "\<bar>round64 z\<bar> < 2 ^ 1024"
  shows "is_double (round64 z)"
proof (cases "z = 0")
  case True
  then show ?thesis by (simp add: round64_def)
next
  case False
  define e where "e = exponent z"
  define M where "M = round_even (z / 2 powi (e - 52))"
  have r: "round64 z = of_int M * 2 powi (e - 52)"
    using False by (simp add: round64_def M_def e_def)
  have e_ge: "- 1022 \<le> e" by (simp add: e_def exponent_ge)
  have "\<bar>z / 2 powi (e - 52)\<bar> = \<bar>z\<bar> / 2 powi (e - 52)" by (simp add: abs_divide)
  also have "\<dots> \<le> 2 powi (e + 1) / 2 powi (e - 52)"
    using exponent_upper [OF False] by (intro divide_right_mono) (simp_all add: e_def)
  also have "\<dots> = 2 ^ 53"
    by (rule powi2_ratio53)
  finally have "\<bar>z / 2 powi (e - 52)\<bar> \<le> of_int (2 ^ 53)" by simp
  then have M_le: "\<bar>M\<bar> \<le> 2 ^ 53" unfolding M_def by (rule round_even_abs_le)
  show ?thesis
  proof (cases "M = 0")
    case True
    with r show ?thesis by simp
  next
    case M0: False
    have absr: "\<bar>round64 z\<bar> = of_int \<bar>M\<bar> * 2 powi (e - 52)"
      by (simp add: r abs_mult)
    have big: "(2::real) powi 1024 = 2 ^ 1024" by (simp only: power_int_numeral)
    show ?thesis
    proof (cases "\<bar>M\<bar> = 2 ^ 53")
      case True
      then have "\<bar>round64 z\<bar> = 2 ^ 53 * 2 powi (e - 52)"
        by (simp add: absr)
      then have "\<bar>round64 z\<bar> = 2 powi (e + 1)"
        by (simp only: powi2_53_times)
      with assms big have "(2::real) powi (e + 1) < 2 powi 1024" by linarith
      then have "e + 1 < 1024" by (simp only: two_powi_less_iff)
      then have k: "e - 51 \<le> 971" by simp
      from True have M2: "M = 2 ^ 53 \<or> M = - (2 ^ 53)" by (simp add: abs_if split: if_splits)
      have "\<exists>m'. \<bar>m'\<bar> < 2 ^ 53 \<and> round64 z = of_int m' * 2 powi (e - 51)"
        using M2
      proof
        assume "M = 2 ^ 53"
        then have "round64 z = of_int (2 ^ 52) * (2 powi (e - 52) * 2)" by (simp add: r)
        then have "round64 z = of_int (2 ^ 52) * 2 powi (e - 51)" by (simp only: powi2_double)
        moreover have "\<bar>2 ^ 52 :: int\<bar> < 2 ^ 53" by simp
        ultimately show ?thesis by blast
      next
        assume "M = - (2 ^ 53)"
        then have "round64 z = of_int (- (2 ^ 52)) * (2 powi (e - 52) * 2)" by (simp add: r)
        then have "round64 z = of_int (- (2 ^ 52)) * 2 powi (e - 51)" by (simp only: powi2_double)
        moreover have "\<bar>- (2 ^ 52) :: int\<bar> < 2 ^ 53" by simp
        ultimately show ?thesis by blast
      qed
      then obtain m' :: int where "\<bar>m'\<bar> < 2 ^ 53" "round64 z = of_int m' * 2 powi (e - 51)"
        by blast
      with is_doubleI [of m' "e - 51"] k e_ge show ?thesis by simp
    next
      case False
      with M_le have M_lt: "\<bar>M\<bar> < 2 ^ 53" by simp
      have "e \<le> 1023"
      proof (rule ccontr)
        assume "\<not> e \<le> 1023"
        then have e_big: "1024 \<le> e" by simp
        then have "- 1022 < exponent z" by (simp add: e_def)
        with \<open>z \<noteq> 0\<close> have "2 powi e \<le> \<bar>z\<bar>" unfolding e_def by (intro exponent_lower)
        then have "2 powi e / 2 powi (e - 52) \<le> \<bar>z\<bar> / 2 powi (e - 52)"
          by (rule divide_right_mono) simp
        then have "2 ^ 52 \<le> \<bar>z\<bar> / 2 powi (e - 52)"
          by (simp only: powi2_ratio52)
        then have "of_int (2 ^ 52) \<le> \<bar>z / 2 powi (e - 52)\<bar>"
          by (simp add: abs_divide)
        then have "2 ^ 52 \<le> \<bar>M\<bar>" unfolding M_def by (rule round_even_abs_ge)
        then have "real_of_int (2 ^ 52) \<le> of_int \<bar>M\<bar>"
          by (simp only: of_int_le_iff)
        then have "(2 ^ 52 :: real) \<le> of_int \<bar>M\<bar>"
          by simp
        then have "2 ^ 52 * 2 powi (e - 52) \<le> \<bar>round64 z\<bar>"
          unfolding absr by (intro mult_right_mono) simp_all
        then have "2 powi e \<le> \<bar>round64 z\<bar>"
          by (simp only: powi2_52_times)
        moreover have "(2::real) powi 1024 \<le> 2 powi e"
          using e_big by (simp only: two_powi_le_iff)
        ultimately show False using assms big by linarith
      qed
      with is_doubleI [OF M_lt, of "e - 52"] e_ge r show ?thesis by simp
    qed
  qed
qed

subsection \<open>Rounding to a double\<close>

lemma is_double_bound:
  assumes "is_double z"
  shows "\<bar>z\<bar> < 2 ^ 1024"
proof -
  from assms obtain m k :: int
    where m: "\<bar>m\<bar> < 2 ^ 53" and k: "k \<le> 971" and z: "z = of_int m * 2 powi k"
    by (auto simp: is_double_def)
  have "\<bar>z\<bar> = real_of_int \<bar>m\<bar> * 2 powi k" by (simp add: z abs_mult)
  also have "\<dots> < 2 ^ 53 * 2 powi k"
  proof (rule mult_strict_right_mono)
    from m have "real_of_int \<bar>m\<bar> < real_of_int (2 ^ 53)" by (simp only: of_int_less_iff)
    then show "real_of_int \<bar>m\<bar> < 2 ^ 53" by simp
  qed (rule powi2_pos)
  also have "\<dots> = 2 powi (k + 53)" using powi2_add [of 53 k] by (simp add: add.commute)
  also have "\<dots> \<le> 2 powi 1024" using k by (simp only: two_powi_le_iff)
  also have "\<dots> = 2 ^ 1024" by (simp only: power_int_numeral)
  finally show ?thesis .
qed

lemma val_mk [simp]: "is_double z \<Longrightarrow> val (mk_fin64 z) = z"
  by (simp add: mk_fin64_inverse)

lemma is_double_val [simp]: "is_double (val a)"
  using val [of a] by simp

lemma rnd_eqI:
  assumes "round64 z = r" and "is_double r"
  shows "rnd z = Fin (mk_fin64 r)"
  using is_double_bound [OF assms(2)] assms(1) by (simp add: rnd_def Let_def abs_if split: if_splits)

lemma rnd_exact: "is_double z \<Longrightarrow> rnd z = Fin (mk_fin64 z)"
  by (rule rnd_eqI) (simp_all add: round64_exact)

lemma rnd_val [simp]: "rnd (val a) = Fin a"
  using rnd_exact [of "val a"] by (simp add: val_inverse)

lemma rnd_normal:
  assumes "2 powi (k + 52) \<le> \<bar>z\<bar>" "\<bar>z\<bar> < 2 powi (k + 53)" "- 1074 \<le> k" "k \<le> 971"
    and "\<bar>z / 2 powi k - of_int m\<bar> < 1 / 2" and "\<bar>m\<bar> < 2 ^ 53"
  shows "rnd z = dbl m k"
  unfolding dbl_def
proof (rule rnd_eqI)
  show "round64 z = of_int m * 2 powi k"
    using assms(1,2,3,5) by (rule round64_normal)
  show "is_double (of_int m * 2 powi k)"
    using assms(6,3,4) by (rule is_doubleI)
qed

lemma rnd_subnormal:
  assumes "\<bar>z\<bar> < 2 powi (- 1022)" and "\<bar>z / 2 powi (- 1074) - of_int m\<bar> < 1 / 2"
    and "\<bar>m\<bar> < 2 ^ 53"
  shows "rnd z = dbl m (- 1074)"
  unfolding dbl_def
proof (rule rnd_eqI)
  show "round64 z = of_int m * 2 powi (- 1074)"
    using assms(1,2) by (rule round64_subnormal)
  show "is_double (of_int m * 2 powi (- 1074))"
    using assms(3) by (rule is_doubleI) simp_all
qed

lemma val_dbl:
  assumes "\<bar>m\<bar> < 2 ^ 53" "- 1074 \<le> k" "k \<le> 971"
  shows "val (mk_fin64 (of_int m * 2 powi k)) = of_int m * 2 powi k"
  using assms by (simp add: is_doubleI)

lemma double_of_int_dbl:
  assumes "\<bar>n\<bar> < 2 ^ 53"
  shows "double_of_int n = dbl n 0"
  unfolding double_of_int_def dbl_def
  using is_doubleI [OF assms, of 0] by (simp add: rnd_exact)

lemma round64_normal_tie:
  assumes "2 powi (k + 52) \<le> \<bar>z\<bar>" "\<bar>z\<bar> < 2 powi (k + 53)" "- 1074 \<le> k"
    and "z / 2 powi k = of_int n + 1 / 2" and "m = (if even n then n else n + 1)"
  shows "round64 z = of_int m * 2 powi k"
proof -
  have "0 < (2::real) powi (k + 52)" by (rule powi2_pos)
  with assms(1) have "0 < \<bar>z\<bar>" by linarith
  then have nz: "z \<noteq> 0" by simp
  have "exponent z = k + 52"
    using assms(1,2,3) by (intro exponent_normal) (simp_all add: algebra_simps)
  moreover have "round_even (z / 2 powi k) = m"
    using round_even_tie [OF assms(4)] assms(5) by simp
  ultimately show ?thesis using nz by (simp add: round64_def)
qed

lemma rnd_normal_tie:
  assumes "2 powi (k + 52) \<le> \<bar>z\<bar>" "\<bar>z\<bar> < 2 powi (k + 53)" "- 1074 \<le> k" "k \<le> 971"
    and "z / 2 powi k = of_int n + 1 / 2" and "m = (if even n then n else n + 1)"
    and "\<bar>m\<bar> < 2 ^ 53"
  shows "rnd z = dbl m k"
  unfolding dbl_def
proof (rule rnd_eqI)
  show "round64 z = of_int m * 2 powi k"
    using assms(1,2,3,5,6) by (rule round64_normal_tie)
  show "is_double (of_int m * 2 powi k)"
    using assms(7,3,4) by (rule is_doubleI)
qed

subsection \<open>Evaluating the operations on given doubles\<close>

lemma dadd_dbl:
  assumes "\<bar>m1\<bar> < 2 ^ 53" "- 1074 \<le> k1" "k1 \<le> 971" "\<bar>m2\<bar> < 2 ^ 53" "- 1074 \<le> k2" "k2 \<le> 971"
  shows "dadd (dbl m1 k1) (dbl m2 k2) = rnd (of_int m1 * 2 powi k1 + of_int m2 * 2 powi k2)"
  unfolding dbl_def using assms by (simp only: dadd.simps val_dbl)

lemma dsub_dbl:
  assumes "\<bar>m1\<bar> < 2 ^ 53" "- 1074 \<le> k1" "k1 \<le> 971" "\<bar>m2\<bar> < 2 ^ 53" "- 1074 \<le> k2" "k2 \<le> 971"
  shows "dsub (dbl m1 k1) (dbl m2 k2) = rnd (of_int m1 * 2 powi k1 - of_int m2 * 2 powi k2)"
  unfolding dbl_def using assms by (simp only: dsub.simps val_dbl)

lemma dmul_dbl:
  assumes "\<bar>m1\<bar> < 2 ^ 53" "- 1074 \<le> k1" "k1 \<le> 971" "\<bar>m2\<bar> < 2 ^ 53" "- 1074 \<le> k2" "k2 \<le> 971"
  shows "dmul (dbl m1 k1) (dbl m2 k2) = rnd ((of_int m1 * 2 powi k1) * (of_int m2 * 2 powi k2))"
  unfolding dbl_def using assms by (simp only: dmul.simps val_dbl)

lemma ddiv_dbl:
  assumes "\<bar>m1\<bar> < 2 ^ 53" "- 1074 \<le> k1" "k1 \<le> 971" "\<bar>m2\<bar> < 2 ^ 53" "- 1074 \<le> k2" "k2 \<le> 971"
    and "m2 \<noteq> 0"
  shows "ddiv (dbl m1 k1) (dbl m2 k2) = rnd ((of_int m1 * 2 powi k1) / (of_int m2 * 2 powi k2))"
proof -
  have "of_int m2 * (2::real) powi k2 \<noteq> 0" using assms(7) by simp
  then show ?thesis
    unfolding dbl_def using assms(1-6) by (simp only: ddiv.simps val_dbl if_False)
qed

lemma pow_2_dbl:
  assumes "\<bar>m1\<bar> < 2 ^ 53" "- 1074 \<le> k1" "k1 \<le> 971"
  shows "pow_2 (dbl m1 k1) = rnd ((of_int m1 * 2 powi k1)\<^sup>2)"
  unfolding dbl_def using assms by (simp only: pow_2.simps val_dbl)

lemma dsqrt_dbl:
  assumes "0 \<le> m1" "m1 < 2 ^ 53" "- 1074 \<le> k1" "k1 \<le> 971"
  shows "dsqrt (dbl m1 k1) = rnd (sqrt (of_int m1 * 2 powi k1))"
proof -
  have "\<bar>m1\<bar> < 2 ^ 53" using assms(1,2) by simp
  moreover have "\<not> of_int m1 * (2::real) powi k1 < 0" using assms(1) by (simp add: not_less)
  ultimately show ?thesis
    unfolding dbl_def using assms(3,4) by (simp only: dsqrt.simps val_dbl if_False)
qed

lemma dless_dbl:
  assumes "\<bar>m1\<bar> < 2 ^ 53" "- 1074 \<le> k1" "k1 \<le> 971" "\<bar>m2\<bar> < 2 ^ 53" "- 1074 \<le> k2" "k2 \<le> 971"
  shows "dless (dbl m1 k1) (dbl m2 k2) \<longleftrightarrow> of_int m1 * 2 powi k1 < of_int m2 * (2::real) powi k2"
  unfolding dbl_def using assms by (simp only: dless.simps val_dbl)

lemma rnd_dbl:
  assumes "z = of_int m * 2 powi k" "\<bar>m\<bar> < 2 ^ 53" "- 1074 \<le> k" "k \<le> 971"
  shows "rnd z = dbl m k"
  unfolding dbl_def assms(1) using assms(2-4) by (intro rnd_exact is_doubleI)

lemma rnd_sqrt_normal:
  assumes "0 \<le> v" "(2 powi (k + 52))\<^sup>2 \<le> v" "v < (2 powi (k + 53))\<^sup>2" "- 1074 \<le> k" "k \<le> 971"
    and "((of_int m - 1 / 2) * 2 powi k)\<^sup>2 < v" "v < ((of_int m + 1 / 2) * 2 powi k)\<^sup>2"
    and "0 < m" "m < 2 ^ 53"
  shows "rnd (sqrt v) = dbl m k"
proof (rule rnd_normal)
  have p: "0 < (2::real) powi k" by (rule powi2_pos)
  show "2 powi (k + 52) \<le> \<bar>sqrt v\<bar>"
    using assms(1,2) by (simp add: real_le_rsqrt)
  have "sqrt v < 2 powi (k + 53)"
    using assms(3) powi2_pos [of "k + 53"] by (intro real_less_lsqrt) simp_all
  then show "\<bar>sqrt v\<bar> < 2 powi (k + 53)" using assms(1) by simp
  have m: "0 < real_of_int m - 1 / 2" using assms(8) by linarith
  have lo: "(of_int m - 1 / 2) * 2 powi k < sqrt v"
    using assms(6) by (intro real_less_rsqrt)
  have hi: "sqrt v < (of_int m + 1 / 2) * 2 powi k"
    using assms(7,8) p by (intro real_less_lsqrt) simp_all
  from lo p have "of_int m - 1 / 2 < sqrt v / 2 powi k" by (simp add: pos_less_divide_eq)
  moreover from hi p have "sqrt v / 2 powi k < of_int m + 1 / 2" by (simp add: pos_divide_less_eq)
  ultimately show "\<bar>sqrt v / 2 powi k - of_int m\<bar> < 1 / 2" by linarith
  show "\<bar>m\<bar> < 2 ^ 53" using assms(8,9) by simp
qed (use assms in simp_all)
subsection \<open>Doubles that are small integers\<close>

lemma is_double_of_int:
  assumes "\<bar>n\<bar> < 2 ^ 53"
  shows "is_double (of_int n)"
  using is_doubleI [OF assms, of 0] by simp

lemma double_of_int_Fin:
  assumes "\<bar>n\<bar> < 2 ^ 53"
  shows "double_of_int n = Fin (mk_fin64 (of_int n))"
  unfolding double_of_int_def using assms by (intro rnd_exact is_double_of_int)

lemma val_of_int:
  assumes "\<bar>n\<bar> < 2 ^ 53"
  shows "val (mk_fin64 (of_int n)) = of_int n"
  using assms by (intro val_mk is_double_of_int)

lemma dadd_int:
  assumes "\<bar>m\<bar> < 2 ^ 53" "\<bar>n\<bar> < 2 ^ 53"
  shows "dadd (double_of_int m) (double_of_int n) = double_of_int (m + n)"
proof -
  have "dadd (double_of_int m) (double_of_int n) = rnd (of_int m + of_int n)"
    using assms by (simp add: double_of_int_Fin val_of_int)
  also have "\<dots> = double_of_int (m + n)"
    by (simp add: double_of_int_def)
  finally show ?thesis .
qed

lemma dsub_int:
  assumes "\<bar>m\<bar> < 2 ^ 53" "\<bar>n\<bar> < 2 ^ 53"
  shows "dsub (double_of_int m) (double_of_int n) = double_of_int (m - n)"
proof -
  have "dsub (double_of_int m) (double_of_int n) = rnd (of_int m - of_int n)"
    using assms by (simp add: double_of_int_Fin val_of_int)
  also have "\<dots> = double_of_int (m - n)"
    by (simp add: double_of_int_def)
  finally show ?thesis .
qed

lemma dmul_int:
  assumes "\<bar>m\<bar> < 2 ^ 53" "\<bar>n\<bar> < 2 ^ 53"
  shows "dmul (double_of_int m) (double_of_int n) = double_of_int (m * n)"
proof -
  have "dmul (double_of_int m) (double_of_int n) = rnd (of_int m * of_int n)"
    using assms by (simp add: double_of_int_Fin val_of_int)
  also have "\<dots> = double_of_int (m * n)"
    by (simp add: double_of_int_def)
  finally show ?thesis .
qed

lemma pow_2_int:
  assumes "\<bar>n\<bar> < 2 ^ 53"
  shows "pow_2 (double_of_int n) = double_of_int (n * n)"
proof -
  have "pow_2 (double_of_int n) = rnd ((of_int n)\<^sup>2)"
    using assms by (simp add: double_of_int_Fin val_of_int power2_eq_square)
  also have "\<dots> = double_of_int (n * n)"
    by (simp add: double_of_int_def power2_eq_square)
  finally show ?thesis .
qed

lemma dsqrt_int:
  assumes "0 \<le> n" "n * n < 2 ^ 53"
  shows "dsqrt (double_of_int (n * n)) = double_of_int n"
proof -
  have nn: "\<bar>n * n\<bar> < 2 ^ 53" using assms by simp
  have s: "sqrt (real_of_int (n * n)) = real_of_int n"
    using assms(1) by (simp add: real_sqrt_mult)
  have "dsqrt (double_of_int (n * n)) = rnd (sqrt (real_of_int (n * n)))"
    using assms(1) by (simp only: double_of_int_Fin [OF nn] val_of_int [OF nn] dsqrt.simps)
      (simp add: not_less [symmetric])
  then show ?thesis by (simp only: s double_of_int_def)
qed

lemma ddiv_int:
  assumes "\<bar>m * n\<bar> < 2 ^ 53" "\<bar>n\<bar> < 2 ^ 53" "n \<noteq> 0"
  shows "ddiv (double_of_int (m * n)) (double_of_int n) = double_of_int m"
proof -
  have "ddiv (double_of_int (m * n)) (double_of_int n) = rnd (real_of_int (m * n) / real_of_int n)"
    using assms(3)
    by (simp only: double_of_int_Fin [OF assms(1)] double_of_int_Fin [OF assms(2)]
          val_of_int [OF assms(1)] val_of_int [OF assms(2)] ddiv.simps) simp
  also have "real_of_int (m * n) / real_of_int n = real_of_int m"
    using assms(3) by simp
  finally show ?thesis by (simp only: double_of_int_def)
qed

lemma dless_int:
  assumes "\<bar>m\<bar> < 2 ^ 53" "\<bar>n\<bar> < 2 ^ 53"
  shows "dless (double_of_int m) (double_of_int n) \<longleftrightarrow> m < n"
  using assms by (simp add: double_of_int_Fin val_of_int)

lemma dgreater_int:
  assumes "\<bar>m\<bar> < 2 ^ 53" "\<bar>n\<bar> < 2 ^ 53"
  shows "dgreater (double_of_int m) (double_of_int n) \<longleftrightarrow> n < m"
  using assms by (simp add: dgreater_def dless_int)

lemma dneg_int:
  assumes "\<bar>n\<bar> < 2 ^ 53"
  shows "dneg (double_of_int n) = double_of_int (- n)"
  using assms by (simp add: double_of_int_Fin val_of_int)

lemma double_of_int_eq_iff:
  assumes "\<bar>m\<bar> < 2 ^ 53" "\<bar>n\<bar> < 2 ^ 53"
  shows "double_of_int m = double_of_int n \<longleftrightarrow> m = n"
proof
  assume "double_of_int m = double_of_int n"
  then have "val (mk_fin64 (of_int m)) = val (mk_fin64 (of_int n))"
    using assms by (simp add: double_of_int_Fin)
  then show "m = n" using assms by (simp add: val_of_int)
qed simp

text \<open>Multiplying by \<open>-1\<close> negates: every double has its negative, and no rounding occurs.\<close>

lemma dmul_minus_one: "dmul v (double_of_int (- 1)) = dneg v"
proof -
  have m1: "double_of_int (- 1) = Fin (mk_fin64 (- 1))" "val (mk_fin64 (- 1)) = - 1"
    using double_of_int_Fin [of "- 1"] val_of_int [of "- 1"] by simp_all
  show ?thesis
  proof (cases v)
    case (Fin a)
    have "is_double (- val a)" by (rule is_double_minus) simp
    then have "rnd (- val a) = Fin (mk_fin64 (- val a))" by (rule rnd_exact)
    with Fin m1 show ?thesis by simp
  qed (simp_all add: m1)
qed

section \<open>The wall reflector\<close>

subsection \<open>What \<open>bounceWall\<close> does to each field\<close>

lemma dless_asym: "dless a b \<Longrightarrow> \<not> dless b a"
  by (cases a; cases b) simp_all

lemma bounceWall_dir_x:
  "x (dir (bounceWall a)) =
     (if dless (dsub (x (pos a)) (double_of_int (radius a))) (double_of_int 0)
           \<or> dgreater (dadd (x (pos a)) (double_of_int (radius a))) (double_of_int SCREEN_WIDTH)
      then dneg (x (dir a)) else x (dir a))"
  by (simp add: bounceWall_def Let_def dmul_minus_one)

lemma bounceWall_pos_x:
  "x (pos (bounceWall a)) =
     (if dless (dsub (x (pos a)) (double_of_int (radius a))) (double_of_int 0)
           \<or> dgreater (dadd (x (pos a)) (double_of_int (radius a))) (double_of_int SCREEN_WIDTH)
      then (if dgreater (dneg (x (dir a))) (double_of_int 0) then double_of_int (radius a + 1)
            else double_of_int (SCREEN_WIDTH - radius a - 1))
      else x (pos a))"
  by (simp add: bounceWall_def Let_def dmul_minus_one)

lemma bounceWall_dir_y:
  "y (dir (bounceWall a)) =
     (if dless (dsub (y (pos a)) (double_of_int (radius a))) (double_of_int 0)
           \<or> dgreater (dadd (y (pos a)) (double_of_int (radius a))) (double_of_int SCREEN_HEIGHT)
      then dneg (y (dir a)) else y (dir a))"
  by (simp add: bounceWall_def Let_def dmul_minus_one)

lemma bounceWall_pos_y:
  "y (pos (bounceWall a)) =
     (if dless (dsub (y (pos a)) (double_of_int (radius a))) (double_of_int 0)
           \<or> dgreater (dadd (y (pos a)) (double_of_int (radius a))) (double_of_int SCREEN_HEIGHT)
      then (if dgreater (dneg (y (dir a))) (double_of_int 0) then double_of_int (radius a + 1)
            else double_of_int (SCREEN_HEIGHT - radius a - 1))
      else y (pos a))"
  by (simp add: bounceWall_def Let_def dmul_minus_one)

lemma bounceWall_radius: "radius (bounceWall a) = radius a"
  by (simp add: bounceWall_def Let_def)

lemma bounceWall_subspaces: "subspaces (bounceWall a) = subspaces a"
  by (simp add: bounceWall_def Let_def)

lemmas bounceWall_fields =
  bounceWall_dir_x bounceWall_pos_x bounceWall_dir_y bounceWall_pos_y

lemma bounceWall_reflects_x:
  assumes "dless (dsub (x (pos a)) (double_of_int (radius a))) (double_of_int 0)
      \<or> dgreater (dadd (x (pos a)) (double_of_int (radius a))) (double_of_int SCREEN_WIDTH)"
  shows "x (dir (bounceWall a)) = dneg (x (dir a))"
    and "dgreater (x (dir (bounceWall a))) (double_of_int 0) \<Longrightarrow>
           x (pos (bounceWall a)) = double_of_int (radius a + 1)"
    and "dless (x (dir (bounceWall a))) (double_of_int 0) \<Longrightarrow>
           x (pos (bounceWall a)) = double_of_int (SCREEN_WIDTH - radius a - 1)"
proof -
  show d: "x (dir (bounceWall a)) = dneg (x (dir a))"
    using assms by (simp only: bounceWall_dir_x if_True)
  have p: "x (pos (bounceWall a)) =
      (if dgreater (dneg (x (dir a))) (double_of_int 0) then double_of_int (radius a + 1)
       else double_of_int (SCREEN_WIDTH - radius a - 1))"
    using assms by (simp only: bounceWall_pos_x if_True)
  show "x (pos (bounceWall a)) = double_of_int (radius a + 1)"
    if "dgreater (x (dir (bounceWall a))) (double_of_int 0)"
    using that by (simp add: p d)
  show "x (pos (bounceWall a)) = double_of_int (SCREEN_WIDTH - radius a - 1)"
    if "dless (x (dir (bounceWall a))) (double_of_int 0)"
  proof -
    from that have "\<not> dgreater (dneg (x (dir a))) (double_of_int 0)"
      unfolding dgreater_def d by (rule dless_asym)
    then show ?thesis by (simp add: p)
  qed
qed

lemma bounceWall_reflects_y:
  assumes "dless (dsub (y (pos a)) (double_of_int (radius a))) (double_of_int 0)
      \<or> dgreater (dadd (y (pos a)) (double_of_int (radius a))) (double_of_int SCREEN_HEIGHT)"
  shows "y (dir (bounceWall a)) = dneg (y (dir a))"
    and "dgreater (y (dir (bounceWall a))) (double_of_int 0) \<Longrightarrow>
           y (pos (bounceWall a)) = double_of_int (radius a + 1)"
    and "dless (y (dir (bounceWall a))) (double_of_int 0) \<Longrightarrow>
           y (pos (bounceWall a)) = double_of_int (SCREEN_HEIGHT - radius a - 1)"
proof -
  show d: "y (dir (bounceWall a)) = dneg (y (dir a))"
    using assms by (simp only: bounceWall_dir_y if_True)
  have p: "y (pos (bounceWall a)) =
      (if dgreater (dneg (y (dir a))) (double_of_int 0) then double_of_int (radius a + 1)
       else double_of_int (SCREEN_HEIGHT - radius a - 1))"
    using assms by (simp only: bounceWall_pos_y if_True)
  show "y (pos (bounceWall a)) = double_of_int (radius a + 1)"
    if "dgreater (y (dir (bounceWall a))) (double_of_int 0)"
    using that by (simp add: p d)
  show "y (pos (bounceWall a)) = double_of_int (SCREEN_HEIGHT - radius a - 1)"
    if "dless (y (dir (bounceWall a))) (double_of_int 0)"
  proof -
    from that have "\<not> dgreater (dneg (y (dir a))) (double_of_int 0)"
      unfolding dgreater_def d by (rule dless_asym)
    then show ?thesis by (simp add: p)
  qed
qed

lemma bounceWall_example:
  assumes "x (pos c) = double_of_int 1198" "radius c = 5" "x (dir c) = double_of_int 3"
  shows "x (dir (bounceWall c)) = double_of_int (- 3)" "x (pos (bounceWall c)) = double_of_int 1194"
proof -
  have right: "dgreater (dadd (x (pos c)) (double_of_int (radius c))) (double_of_int SCREEN_WIDTH)"
    by (simp add: assms SCREEN_WIDTH_def dadd_int dgreater_int)
  have neg: "dneg (x (dir c)) = double_of_int (- 3)"
    using dneg_int [of 3] by (simp add: assms)
  have "\<not> dgreater (double_of_int (- 3)) (double_of_int 0)"
    by (simp add: dgreater_int)
  with right neg show "x (dir (bounceWall c)) = double_of_int (- 3)"
    "x (pos (bounceWall c)) = double_of_int 1194"
    by (simp_all add: bounceWall_dir_x bounceWall_pos_x assms(2) SCREEN_WIDTH_def)
qed

subsection \<open>Reflection and clamping\<close>

text \<open>
  Claim C3. When an edge of the ball is beyond the arena on an axis (\<open>centre - radius < 0\<close>
  or \<open>centre + radius > extent\<close>, as the code tests them), \<open>bounceWall\<close> negates the velocity
  on that axis; if the negated velocity is positive the centre is put at \<open>radius + 1\<close>, if
  it is negative at \<open>extent - radius - 1\<close>. A ball at x = 1198 with radius 5 and x-velocity
  3 ends with x-velocity -3 at x = 1194. The axes are independent: what happens on an axis
  is determined by the radius and by position and velocity on that axis alone.
\<close>

theorem bounceWall_reflects_and_clamps:
  "(dless (dsub (x (pos a)) (double_of_int (radius a))) (double_of_int 0)
      \<or> dgreater (dadd (x (pos a)) (double_of_int (radius a))) (double_of_int SCREEN_WIDTH) \<longrightarrow>
      x (dir (bounceWall a)) = dneg (x (dir a)) \<and>
      (dgreater (x (dir (bounceWall a))) (double_of_int 0) \<longrightarrow>
         x (pos (bounceWall a)) = double_of_int (radius a + 1)) \<and>
      (dless (x (dir (bounceWall a))) (double_of_int 0) \<longrightarrow>
         x (pos (bounceWall a)) = double_of_int (SCREEN_WIDTH - radius a - 1)))
   \<and> (dless (dsub (y (pos a)) (double_of_int (radius a))) (double_of_int 0)
      \<or> dgreater (dadd (y (pos a)) (double_of_int (radius a))) (double_of_int SCREEN_HEIGHT) \<longrightarrow>
      y (dir (bounceWall a)) = dneg (y (dir a)) \<and>
      (dgreater (y (dir (bounceWall a))) (double_of_int 0) \<longrightarrow>
         y (pos (bounceWall a)) = double_of_int (radius a + 1)) \<and>
      (dless (y (dir (bounceWall a))) (double_of_int 0) \<longrightarrow>
         y (pos (bounceWall a)) = double_of_int (SCREEN_HEIGHT - radius a - 1)))
   \<and> (x (pos c) = double_of_int 1198 \<and> radius c = 5 \<and> x (dir c) = double_of_int 3 \<longrightarrow>
        x (dir (bounceWall c)) = double_of_int (- 3) \<and> x (pos (bounceWall c)) = double_of_int 1194)
   \<and> (radius a = radius b \<and> x (pos a) = x (pos b) \<and> x (dir a) = x (dir b) \<longrightarrow>
        x (pos (bounceWall a)) = x (pos (bounceWall b))
        \<and> x (dir (bounceWall a)) = x (dir (bounceWall b)))
   \<and> (radius a = radius b \<and> y (pos a) = y (pos b) \<and> y (dir a) = y (dir b) \<longrightarrow>
        y (pos (bounceWall a)) = y (pos (bounceWall b))
        \<and> y (dir (bounceWall a)) = y (dir (bounceWall b)))"
proof (intro conjI impI)
  assume "radius a = radius b \<and> x (pos a) = x (pos b) \<and> x (dir a) = x (dir b)"
  then show "x (pos (bounceWall a)) = x (pos (bounceWall b))"
    "x (dir (bounceWall a)) = x (dir (bounceWall b))"
    by (simp_all only: bounceWall_pos_x bounceWall_dir_x)
next
  assume "radius a = radius b \<and> y (pos a) = y (pos b) \<and> y (dir a) = y (dir b)"
  then show "y (pos (bounceWall a)) = y (pos (bounceWall b))"
    "y (dir (bounceWall a)) = y (dir (bounceWall b))"
    by (simp_all only: bounceWall_pos_y bounceWall_dir_y)
next
  assume "x (pos c) = double_of_int 1198 \<and> radius c = 5 \<and> x (dir c) = double_of_int 3"
  then show "x (dir (bounceWall c)) = double_of_int (- 3)"
    "x (pos (bounceWall c)) = double_of_int 1194"
    using bounceWall_example [of c] by simp_all
qed (simp_all add: bounceWall_reflects_x bounceWall_reflects_y)

theorem bounceWall_reflects_and_clamps_witness:
  "x (dir (bounceWall \<lparr>radius = 5, pos = \<lparr>x = double_of_int 1198, y = double_of_int 2\<rparr>, dir = \<lparr>x = double_of_int 3, y = double_of_int (- 4)\<rparr>, subspaces = [0, 0, 0, 0]\<rparr>)) = double_of_int (- 3)
   \<and> x (pos (bounceWall \<lparr>radius = 5, pos = \<lparr>x = double_of_int 1198, y = double_of_int 2\<rparr>, dir = \<lparr>x = double_of_int 3, y = double_of_int (- 4)\<rparr>, subspaces = [0, 0, 0, 0]\<rparr>)) = double_of_int 1194
   \<and> y (dir (bounceWall \<lparr>radius = 5, pos = \<lparr>x = double_of_int 1198, y = double_of_int 2\<rparr>, dir = \<lparr>x = double_of_int 3, y = double_of_int (- 4)\<rparr>, subspaces = [0, 0, 0, 0]\<rparr>)) = double_of_int 4
   \<and> y (pos (bounceWall \<lparr>radius = 5, pos = \<lparr>x = double_of_int 1198, y = double_of_int 2\<rparr>, dir = \<lparr>x = double_of_int 3, y = double_of_int (- 4)\<rparr>, subspaces = [0, 0, 0, 0]\<rparr>)) = double_of_int 6"
  using bounceWall_reflects_and_clamps [of "\<lparr>radius = 5, pos = \<lparr>x = double_of_int 1198, y = double_of_int 2\<rparr>, dir = \<lparr>x = double_of_int 3, y = double_of_int (- 4)\<rparr>, subspaces = [0, 0, 0, 0]\<rparr>" "\<lparr>radius = 5, pos = \<lparr>x = double_of_int 1198, y = double_of_int 2\<rparr>, dir = \<lparr>x = double_of_int 3, y = double_of_int (- 4)\<rparr>, subspaces = [0, 0, 0, 0]\<rparr>" "\<lparr>radius = 5, pos = \<lparr>x = double_of_int 1198, y = double_of_int 2\<rparr>, dir = \<lparr>x = double_of_int 3, y = double_of_int (- 4)\<rparr>, subspaces = [0, 0, 0, 0]\<rparr>"]
  by (simp add: SCREEN_WIDTH_def SCREEN_HEIGHT_def dadd_int dsub_int dless_int dgreater_int dneg_int)

subsection \<open>Reflection at rest\<close>

text \<open>
  Claim C10. When an edge of the ball is beyond the arena on an axis and the velocity on
  that axis is 0, \<open>bounceWall\<close> leaves that velocity at 0 and puts the centre at
  \<open>extent - radius - 1\<close>, the far side, also when the edge crossed is the near one at 0:
  the negated velocity is not strictly positive.
\<close>

theorem bounceWall_zero_velocity_clamps_far:
  "((dless (dsub (x (pos a)) (double_of_int (radius a))) (double_of_int 0)
       \<or> dgreater (dadd (x (pos a)) (double_of_int (radius a))) (double_of_int SCREEN_WIDTH))
      \<and> x (dir a) = double_of_int 0 \<longrightarrow>
      x (dir (bounceWall a)) = double_of_int 0
      \<and> x (pos (bounceWall a)) = double_of_int (SCREEN_WIDTH - radius a - 1))
   \<and> ((dless (dsub (y (pos a)) (double_of_int (radius a))) (double_of_int 0)
       \<or> dgreater (dadd (y (pos a)) (double_of_int (radius a))) (double_of_int SCREEN_HEIGHT))
      \<and> y (dir a) = double_of_int 0 \<longrightarrow>
      y (dir (bounceWall a)) = double_of_int 0
      \<and> y (pos (bounceWall a)) = double_of_int (SCREEN_HEIGHT - radius a - 1))"
proof -
  have z: "dneg (double_of_int 0) = double_of_int 0"
    "\<not> dgreater (double_of_int 0) (double_of_int 0)"
    using dneg_int [of 0] by (simp_all add: dgreater_int)
  show ?thesis
    unfolding bounceWall_fields using z by simp
qed

theorem bounceWall_zero_velocity_clamps_far_witness:
  "dless (dsub (x (pos \<lparr>radius = 5, pos = \<lparr>x = double_of_int 2, y = double_of_int 1199\<rparr>, dir = \<lparr>x = double_of_int 0, y = double_of_int 0\<rparr>, subspaces = [0, 0, 0, 0]\<rparr>)) (double_of_int (radius \<lparr>radius = 5, pos = \<lparr>x = double_of_int 2, y = double_of_int 1199\<rparr>, dir = \<lparr>x = double_of_int 0, y = double_of_int 0\<rparr>, subspaces = [0, 0, 0, 0]\<rparr>))) (double_of_int 0)
   \<and> x (dir (bounceWall \<lparr>radius = 5, pos = \<lparr>x = double_of_int 2, y = double_of_int 1199\<rparr>, dir = \<lparr>x = double_of_int 0, y = double_of_int 0\<rparr>, subspaces = [0, 0, 0, 0]\<rparr>)) = double_of_int 0
   \<and> x (pos (bounceWall \<lparr>radius = 5, pos = \<lparr>x = double_of_int 2, y = double_of_int 1199\<rparr>, dir = \<lparr>x = double_of_int 0, y = double_of_int 0\<rparr>, subspaces = [0, 0, 0, 0]\<rparr>)) = double_of_int 1194
   \<and> dgreater (dadd (y (pos \<lparr>radius = 5, pos = \<lparr>x = double_of_int 2, y = double_of_int 1199\<rparr>, dir = \<lparr>x = double_of_int 0, y = double_of_int 0\<rparr>, subspaces = [0, 0, 0, 0]\<rparr>)) (double_of_int (radius \<lparr>radius = 5, pos = \<lparr>x = double_of_int 2, y = double_of_int 1199\<rparr>, dir = \<lparr>x = double_of_int 0, y = double_of_int 0\<rparr>, subspaces = [0, 0, 0, 0]\<rparr>))) (double_of_int 1200)
   \<and> y (dir (bounceWall \<lparr>radius = 5, pos = \<lparr>x = double_of_int 2, y = double_of_int 1199\<rparr>, dir = \<lparr>x = double_of_int 0, y = double_of_int 0\<rparr>, subspaces = [0, 0, 0, 0]\<rparr>)) = double_of_int 0
   \<and> y (pos (bounceWall \<lparr>radius = 5, pos = \<lparr>x = double_of_int 2, y = double_of_int 1199\<rparr>, dir = \<lparr>x = double_of_int 0, y = double_of_int 0\<rparr>, subspaces = [0, 0, 0, 0]\<rparr>)) = double_of_int 1194"
  using bounceWall_zero_velocity_clamps_far [of "\<lparr>radius = 5, pos = \<lparr>x = double_of_int 2, y = double_of_int 1199\<rparr>, dir = \<lparr>x = double_of_int 0, y = double_of_int 0\<rparr>, subspaces = [0, 0, 0, 0]\<rparr>"]
  by (simp add: SCREEN_WIDTH_def SCREEN_HEIGHT_def dadd_int dsub_int dless_int dgreater_int)

section \<open>Integrator and reflector against the specification\<close>

lemma moveBall_spec: "moveBall b = spec_move b"
  by (simp add: moveBall_def spec_move_def Let_def)

lemma spec_reflect_fields:
  "x (dir (spec_reflect b)) = x (dir (bounceWall b))"
  "x (pos (spec_reflect b)) = x (pos (bounceWall b))"
  "y (dir (spec_reflect b)) = y (dir (bounceWall b))"
  "y (pos (spec_reflect b)) = y (pos (bounceWall b))"
  "radius (spec_reflect b) = radius (bounceWall b)"
  "subspaces (spec_reflect b) = subspaces (bounceWall b)"
  by (simp_all add: spec_reflect_def spec_reflect_axis_def bounceWall_fields bounceWall_radius
        bounceWall_subspaces split: prod.splits)

lemma bounceWall_spec: "bounceWall b = spec_reflect b"
proof -
  have "pos (bounceWall b) = pos (spec_reflect b)" "dir (bounceWall b) = dir (spec_reflect b)"
    by (rule vec2.equality; simp add: spec_reflect_fields)+
  then show ?thesis
    by (intro Ball.equality) (simp_all add: spec_reflect_fields)
qed

section \<open>The frame of the resolver\<close>

text \<open>
  Claim C7. \<open>bounce\<close> changes nothing but the two velocities: positions and radii (and the
  subspace indices) of both balls are as before, for every pair of balls.
\<close>

theorem bounce_changes_only_velocity:
  "\<exists>a' b'. bounce a b = (a', b')
           \<and> pos a' = pos a \<and> radius a' = radius a
           \<and> pos b' = pos b \<and> radius b' = radius b
           \<and> a' = a\<lparr>dir := dir a'\<rparr> \<and> b' = b\<lparr>dir := dir b'\<rparr>"
  by (simp add: bounce_def Let_def)

section \<open>The simulation step\<close>

subsection \<open>The inner loop finds the first overlap\<close>

lemma scan_others_find:
  "apfst (filter is_step_call) (scan_others i js balls) =
     (case find (\<lambda>j. j \<noteq> i \<and> overlaps (balls ! i) (balls ! j)) js of
        None \<Rightarrow> ([], balls)
      | Some j \<Rightarrow>
          (case bounce (balls ! i) (balls ! j) of
             (a, b) \<Rightarrow> ([Call_bounce i j], balls[i := a, j := b])))"
proof (induction js)
  case Nil
  then show ?case by simp
next
  case (Cons j js)
  show ?case
  proof (cases "i = j")
    case True
    with Cons show ?thesis by simp
  next
    case False
    show ?thesis
    proof (cases "overlaps (balls ! i) (balls ! j)")
      case True
      with False show ?thesis by (auto split: prod.splits)
    next
      case no: False
      with False Cons show ?thesis
        by (cases "scan_others i js balls") (auto split: prod.splits option.splits)
    qed
  qed
qed

lemma render_ball_refines:
  assumes "i < length balls" and "amnt \<le> length balls"
  shows "apfst (filter is_step_call) (render_ball amnt i balls) = spec_step_ball amnt i balls"
proof (cases "spec_first_overlap amnt i balls")
  case None
  then have "apfst (filter is_step_call) (scan_others i [0..<amnt] balls) = ([], balls)"
    by (simp add: scan_others_find spec_first_overlap_def)
  then obtain cs where "scan_others i [0..<amnt] balls = (cs, balls)" "filter is_step_call cs = []"
    by (cases "scan_others i [0..<amnt] balls") auto
  with None assms show ?thesis
    by (simp add: render_ball_def spec_step_ball_def Let_def moveBall_spec bounceWall_spec)
next
  case (Some j)
  then have j: "j \<noteq> i"
    by (auto simp add: spec_first_overlap_def find_Some_iff)
  obtain a b where ab: "bounce (balls ! i) (balls ! j) = (a, b)"
    by (cases "bounce (balls ! i) (balls ! j)")
  have "apfst (filter is_step_call) (scan_others i [0..<amnt] balls)
          = ([Call_bounce i j], balls[i := a, j := b])"
    using Some ab by (simp add: scan_others_find spec_first_overlap_def)
  then obtain cs where cs: "scan_others i [0..<amnt] balls = (cs, balls[i := a, j := b])"
      "filter is_step_call cs = [Call_bounce i j]"
    by (cases "scan_others i [0..<amnt] balls") auto
  have "balls[i := a, j := b] ! i = a"
    using assms j by simp
  moreover have "balls[i := a, j := b, i := c] = balls[j := b, i := c]" for c
    using j by (simp add: list_update_swap)
  ultimately show ?thesis
    using cs ab Some assms
    by (simp add: render_ball_def spec_step_ball_def Let_def moveBall_spec bounceWall_spec)
qed

lemma spec_step_ball_length:
  "spec_step_ball amnt i balls = (cs, balls') \<Longrightarrow> length balls' = length balls"
  by (auto simp add: spec_step_ball_def split: option.splits prod.splits)

lemma render_from_refines:
  assumes "\<forall>i \<in> set is. i < length balls" and "amnt \<le> length balls"
  shows "apfst (filter is_step_call) (render_from amnt is balls) = spec_step_from amnt is balls"
  using assms
proof (induction "is" arbitrary: balls)
  case Nil
  then show ?case by simp
next
  case (Cons i "is")
  obtain cs b1 where r: "render_ball amnt i balls = (cs, b1)"
    by (cases "render_ball amnt i balls")
  from Cons.prems have "apfst (filter is_step_call) (render_ball amnt i balls) = spec_step_ball amnt i balls"
    by (simp add: render_ball_refines)
  with r have sb: "spec_step_ball amnt i balls = (filter is_step_call cs, b1)"
    by simp
  then have len: "length b1 = length balls"
    by (rule spec_step_ball_length)
  with Cons.prems have ih: "apfst (filter is_step_call) (render_from amnt is b1) = spec_step_from amnt is b1"
    by (intro Cons.IH) simp_all
  obtain cs' b2 where r': "render_from amnt is b1 = (cs', b2)"
    by (cases "render_from amnt is b1")
  with ih have "spec_step_from amnt is b1 = (filter is_step_call cs', b2)" by simp
  with r r' sb show ?case by simp
qed

subsection \<open>Order of the step\<close>

text \<open>
  Claim C4. For every body \<open>i\<close>, in index order, \<open>renderBalls\<close> does what \<open>spec_step_ball\<close> says:
  the others are scanned in index order and the resolver is called on at most one pair,
  \<open>(i, j)\<close> for the first \<open>j \<noteq> i\<close> that overlaps \<open>i\<close>, after which the scan stops; then
  \<open>i\<close> is drawn, then integrated (\<open>spec_move\<close>: position += velocity), then reflected off
  the walls (\<open>spec_reflect\<close>); then the step goes on to the next body, on the collection as
  the previous bodies left it. Calls and resulting collection of \<open>renderBalls\<close> (its colour
  and console calls left aside) are those of \<open>spec_simulation_step\<close>.
\<close>

theorem renderBalls_is_simulation_step:
  "step_calls (renderBalls amnt balls) = spec_simulation_step amnt balls"
  using render_from_refines [of "[0..<nat amnt]" balls "nat amnt"]
  by (cases "render_from (nat amnt) [0..<nat amnt] balls")
     (auto simp add: renderBalls_def spec_simulation_step_def step_calls_def)

subsection \<open>A frame without overlap at the moment of each scan\<close>

lemma scan_others_no_overlap:
  assumes "\<forall>j \<in> set js. j \<noteq> i \<longrightarrow> \<not> overlaps (balls ! i) (balls ! j)"
  shows "\<exists>cs. scan_others i js balls = (cs, balls) \<and> filter is_bounce cs = []"
  using assms by (induction js) auto

lemma render_ball_no_overlap:
  assumes "i < length balls"
    and "\<forall>j \<in> set [0..<amnt]. j \<noteq> i \<longrightarrow> \<not> overlaps (balls ! i) (balls ! j)"
  shows "\<exists>cs. render_ball amnt i balls = (cs, balls[i := advance (balls ! i)])
            \<and> filter is_bounce cs = []"
proof -
  from scan_others_no_overlap [OF assms(2)]
  obtain cs where "scan_others i [0..<amnt] balls = (cs, balls)" "filter is_bounce cs = []"
    by blast
  with assms(1) show ?thesis
    by (simp add: render_ball_def Let_def advance_def)
qed

lemma advanced_nth:
  "j < length balls \<Longrightarrow> advanced k balls ! j = (if j < k then advance (balls ! j) else balls ! j)"
  by (auto simp add: advanced_def nth_append)

lemma advanced_length: "length (advanced k balls) = length balls"
  by (simp add: advanced_def)

lemma advanced_Suc:
  assumes "k < length balls"
  shows "(advanced k balls)[k := advance (advanced k balls ! k)] = advanced (Suc k) balls"
  using assms
  by (intro nth_equalityI) (auto simp add: advanced_length advanced_nth nth_list_update less_Suc_eq)

lemma no_overlap_when_scannedD:
  assumes "no_overlap_when_scanned n balls" "i < n" "j < n" "j \<noteq> i"
  shows "\<not> overlaps (balls ! i) (if j < i then advance (balls ! j) else balls ! j)"
proof -
  from assms(1) have "\<forall>i<n. \<forall>j<n. i = j \<or>
      \<not> overlaps (balls ! i) (if j < i then advance (balls ! j) else balls ! j)"
    by (simp add: no_overlap_when_scanned_def list_all_iff)
  with assms(2,3,4) show ?thesis by blast
qed

lemma render_from_quiet:
  assumes "k \<le> n" and "n \<le> length balls" and "no_overlap_when_scanned n balls"
  shows "\<exists>cs. render_from n [k..<n] (advanced k balls) = (cs, advanced n balls)
            \<and> filter is_bounce cs = []"
  using assms(1)
proof (induction rule: inc_induct)
  case base
  show ?case by simp
next
  case (step k)
  have k: "k < length balls" using step.hyps assms(2) by simp
  have "\<forall>j \<in> set [0..<n]. j \<noteq> k \<longrightarrow> \<not> overlaps (advanced k balls ! k) (advanced k balls ! j)"
  proof (intro ballI impI)
    fix j assume "j \<in> set [0..<n]" "j \<noteq> k"
    then have "j < n" by simp
    with no_overlap_when_scannedD [OF assms(3) \<open>k < n\<close> this \<open>j \<noteq> k\<close>] k assms(2)
    show "\<not> overlaps (advanced k balls ! k) (advanced k balls ! j)"
      by (simp add: advanced_nth)
  qed
  with k obtain cs where cs: "render_ball n k (advanced k balls) = (cs, advanced (Suc k) balls)"
      "filter is_bounce cs = []"
    using render_ball_no_overlap [of k "advanced k balls" n]
    by (auto simp add: advanced_length advanced_Suc)
  from step.IH obtain cs' where cs': "render_from n [Suc k..<n] (advanced (Suc k) balls) = (cs', advanced n balls)"
      "filter is_bounce cs' = []"
    by blast
  from cs cs' \<open>k < n\<close> show ?case
    by (simp add: upt_conv_Cons)
qed

lemma upt_0_2: "[0..<2] = [0, Suc 0]"
  by (simp add: upt_rec)

text \<open>
  Claim C2, amended. If no ball overlaps another at the moment it is scanned (the balls
  before it already moved and reflected in this frame, the balls after it as at the
  start of the frame), the step never calls the resolver: every ball is moved and
  reflected, and nothing else happens to it.
\<close>

theorem no_overlap_when_scanned_no_bounce:
  assumes "nat amnt \<le> length balls" and "no_overlap_when_scanned (nat amnt) balls"
  shows "\<exists>cs. renderBalls amnt balls
                 = Inr (cs, map advance (take (nat amnt) balls) @ drop (nat amnt) balls)
            \<and> filter is_bounce cs = []"
  using render_from_quiet [of 0 "nat amnt" balls] assms
  by (simp add: renderBalls_def advanced_def)

lemmas int_double_simps =
  dadd_int dsub_int dmul_int pow_2_int dless_int dgreater_int dneg_int

lemma small_roots_and_quotients:
  "dsqrt (double_of_int 100) = double_of_int 10"
  "dsqrt (double_of_int 64) = double_of_int 8"
  "dsqrt (double_of_int 36) = double_of_int 6"
  "ddiv (double_of_int 8) (double_of_int 8) = double_of_int 1"
  "ddiv (double_of_int 0) (double_of_int 8) = double_of_int 0"
  "ddiv (double_of_int (- 6)) (double_of_int 6) = double_of_int (- 1)"
  "ddiv (double_of_int 0) (double_of_int 6) = double_of_int 0"
  using dsqrt_int [of 10] dsqrt_int [of 8] dsqrt_int [of 6]
    ddiv_int [of 1 8] ddiv_int [of 0 8] ddiv_int [of "- 1" 6] ddiv_int [of 0 6]
  by simp_all

text \<open>
  Claim C5. On a at (0,0) with velocity (1,0) and b at (8,0) with velocity (-1,0), both
  of radius 5, \<open>bounce\<close> returns a with velocity (-1,0) and b with velocity (1,0): the
  velocities along the normal are swapped, and the sum of the squared speeds (twice the
  kinetic energy of the pair, the masses being equal) is the same before and after. Every
  operation of this run is exact in binary64.
\<close>

theorem bounce_head_on:
  "bounce \<lparr>radius = 5, pos = \<lparr>x = double_of_int 0, y = double_of_int 0\<rparr>,
            dir = \<lparr>x = double_of_int 1, y = double_of_int 0\<rparr>, subspaces = sa\<rparr>
          \<lparr>radius = 5, pos = \<lparr>x = double_of_int 8, y = double_of_int 0\<rparr>,
            dir = \<lparr>x = double_of_int (- 1), y = double_of_int 0\<rparr>, subspaces = sb\<rparr>
     = (\<lparr>radius = 5, pos = \<lparr>x = double_of_int 0, y = double_of_int 0\<rparr>,
          dir = \<lparr>x = double_of_int (- 1), y = double_of_int 0\<rparr>, subspaces = sa\<rparr>,
        \<lparr>radius = 5, pos = \<lparr>x = double_of_int 8, y = double_of_int 0\<rparr>,
          dir = \<lparr>x = double_of_int 1, y = double_of_int 0\<rparr>, subspaces = sb\<rparr>)
   \<and> dadd (dot \<lparr>x = double_of_int (- 1), y = double_of_int 0\<rparr>
                 \<lparr>x = double_of_int (- 1), y = double_of_int 0\<rparr>)
            (dot \<lparr>x = double_of_int 1, y = double_of_int 0\<rparr>
                 \<lparr>x = double_of_int 1, y = double_of_int 0\<rparr>)
       = dadd (dot \<lparr>x = double_of_int 1, y = double_of_int 0\<rparr>
                   \<lparr>x = double_of_int 1, y = double_of_int 0\<rparr>)
              (dot \<lparr>x = double_of_int (- 1), y = double_of_int 0\<rparr>
                   \<lparr>x = double_of_int (- 1), y = double_of_int 0\<rparr>)"
  by (simp add: bounce_def norm_vec2_def dot_def Let_def int_double_simps
        small_roots_and_quotients)

text \<open>
  Claim C2, as stated, fails. Two balls of radius 5 at (100,100) and (110,100) do not
  overlap (their distance is 10). Ball 0 has velocity (4,0): it is moved to (104,100)
  before ball 1 is scanned, so ball 1 overlaps it and the resolver is called on (1, 0);
  the velocities (4,0) and (0,0) of the two balls are exchanged, and no wall is involved.
  Every operation of this run is exact in binary64.
\<close>

theorem no_overlap_at_start_yet_bounce:
  "no_overlap 2
     [\<lparr>radius = 5, pos = \<lparr>x = double_of_int 100, y = double_of_int 100\<rparr>, dir = \<lparr>x = double_of_int 4, y = double_of_int 0\<rparr>, subspaces = [2, 2, 2, 2]\<rparr>,
      \<lparr>radius = 5, pos = \<lparr>x = double_of_int 110, y = double_of_int 100\<rparr>, dir = \<lparr>x = double_of_int 0, y = double_of_int 0\<rparr>, subspaces = [2, 2, 2, 2]\<rparr>]
   \<and> renderBalls 2
     [\<lparr>radius = 5, pos = \<lparr>x = double_of_int 100, y = double_of_int 100\<rparr>, dir = \<lparr>x = double_of_int 4, y = double_of_int 0\<rparr>, subspaces = [2, 2, 2, 2]\<rparr>,
      \<lparr>radius = 5, pos = \<lparr>x = double_of_int 110, y = double_of_int 100\<rparr>, dir = \<lparr>x = double_of_int 0, y = double_of_int 0\<rparr>, subspaces = [2, 2, 2, 2]\<rparr>]
     = Inr ([SDL_SetRenderDrawColor 0 0 255 255,
             Call_drawBall 0 (\<lparr>radius = 5, pos = \<lparr>x = double_of_int 100, y = double_of_int 100\<rparr>, dir = \<lparr>x = double_of_int 4, y = double_of_int 0\<rparr>, subspaces = [2, 2, 2, 2]\<rparr>),
             Call_printf [2, 2, 2, 2], Call_moveBall 0, Call_bounceWall 0,
             SDL_SetRenderDrawColor 255 0 0 255, Call_bounce 1 0,
             Call_drawBall 1 (\<lparr>radius = 5, pos = \<lparr>x = double_of_int 110, y = double_of_int 100\<rparr>, dir = \<lparr>x = double_of_int 4, y = double_of_int 0\<rparr>, subspaces = [2, 2, 2, 2]\<rparr>),
             Call_printf [2, 2, 2, 2], Call_moveBall 1, Call_bounceWall 1],
            [\<lparr>radius = 5, pos = \<lparr>x = double_of_int 104, y = double_of_int 100\<rparr>, dir = \<lparr>x = double_of_int 0, y = double_of_int 0\<rparr>, subspaces = [2, 2, 2, 2]\<rparr>,
             \<lparr>radius = 5, pos = \<lparr>x = double_of_int 114, y = double_of_int 100\<rparr>, dir = \<lparr>x = double_of_int 4, y = double_of_int 0\<rparr>, subspaces = [2, 2, 2, 2]\<rparr>])"
  (is "no_overlap 2 [?A, ?B] \<and> _")
proof -
  let ?A1 = "\<lparr>radius = 5, pos = \<lparr>x = double_of_int 104, y = double_of_int 100\<rparr>, dir = \<lparr>x = double_of_int 4, y = double_of_int 0\<rparr>, subspaces = [2, 2, 2, 2]\<rparr>"
  have o1: "\<not> overlaps ?A ?B" "\<not> overlaps ?B ?A" "overlaps ?B ?A1"
    by (simp_all add: overlaps_def pyth_def int_double_simps small_roots_and_quotients)
  have start: "no_overlap 2 [?A, ?B]"
    using o1 by (simp add: no_overlap_def upt_0_2)
  have mv: "moveBall ?A = ?A1"
    by (simp add: moveBall_def int_double_simps)
  have wl: "bounceWall ?A1 = ?A1"
    by (simp add: bounceWall_def SCREEN_WIDTH_def SCREEN_HEIGHT_def int_double_simps)
  have r0: "render_ball 2 0 [?A, ?B] =
      ([SDL_SetRenderDrawColor 0 0 255 255, Call_drawBall 0 ?A, Call_printf [2, 2, 2, 2],
        Call_moveBall 0, Call_bounceWall 0], [?A1, ?B])"
    using o1 by (simp add: render_ball_def upt_0_2 mv wl)
  let ?A2 = "\<lparr>radius = 5, pos = \<lparr>x = double_of_int 104, y = double_of_int 100\<rparr>, dir = \<lparr>x = double_of_int 0, y = double_of_int 0\<rparr>, subspaces = [2, 2, 2, 2]\<rparr>"
  let ?B1 = "\<lparr>radius = 5, pos = \<lparr>x = double_of_int 110, y = double_of_int 100\<rparr>, dir = \<lparr>x = double_of_int 4, y = double_of_int 0\<rparr>, subspaces = [2, 2, 2, 2]\<rparr>"
  let ?B2 = "\<lparr>radius = 5, pos = \<lparr>x = double_of_int 114, y = double_of_int 100\<rparr>, dir = \<lparr>x = double_of_int 4, y = double_of_int 0\<rparr>, subspaces = [2, 2, 2, 2]\<rparr>"
  have bn: "bounce ?B ?A1 = (?B1, ?A2)"
    by (simp add: bounce_def norm_vec2_def dot_def Let_def int_double_simps
          small_roots_and_quotients)
  have mv': "moveBall ?B1 = ?B2"
    by (simp add: moveBall_def int_double_simps)
  have wl': "bounceWall ?B2 = ?B2"
    by (simp add: bounceWall_def SCREEN_WIDTH_def SCREEN_HEIGHT_def int_double_simps)
  have r1: "render_ball 2 1 [?A1, ?B] =
      ([SDL_SetRenderDrawColor 255 0 0 255, Call_bounce 1 0, Call_drawBall 1 ?B1,
        Call_printf [2, 2, 2, 2], Call_moveBall 1, Call_bounceWall 1], [?A2, ?B2])"
    using o1 by (simp add: render_ball_def upt_0_2 bn mv' wl')
  have "renderBalls 2 [?A, ?B] =
      Inr ([SDL_SetRenderDrawColor 0 0 255 255, Call_drawBall 0 ?A, Call_printf [2, 2, 2, 2],
            Call_moveBall 0, Call_bounceWall 0,
            SDL_SetRenderDrawColor 255 0 0 255, Call_bounce 1 0, Call_drawBall 1 ?B1,
            Call_printf [2, 2, 2, 2], Call_moveBall 1, Call_bounceWall 1], [?A2, ?B2])"
    using r0 r1 by (simp add: renderBalls_def upt_0_2)
  with start show ?thesis by simp
qed

theorem no_overlap_when_scanned_no_bounce_witness:
  "nat 2 \<le> length
     [\<lparr>radius = 5, pos = \<lparr>x = double_of_int 100, y = double_of_int 100\<rparr>, dir = \<lparr>x = double_of_int 4, y = double_of_int 0\<rparr>, subspaces = [0, 0, 0, 0]\<rparr>,
      \<lparr>radius = 5, pos = \<lparr>x = double_of_int 1193, y = double_of_int 100\<rparr>, dir = \<lparr>x = double_of_int 4, y = double_of_int 0\<rparr>, subspaces = [0, 0, 0, 0]\<rparr>]
   \<and> no_overlap_when_scanned (nat 2)
     [\<lparr>radius = 5, pos = \<lparr>x = double_of_int 100, y = double_of_int 100\<rparr>, dir = \<lparr>x = double_of_int 4, y = double_of_int 0\<rparr>, subspaces = [0, 0, 0, 0]\<rparr>,
      \<lparr>radius = 5, pos = \<lparr>x = double_of_int 1193, y = double_of_int 100\<rparr>, dir = \<lparr>x = double_of_int 4, y = double_of_int 0\<rparr>, subspaces = [0, 0, 0, 0]\<rparr>]
   \<and> (\<exists>cs. renderBalls 2
     [\<lparr>radius = 5, pos = \<lparr>x = double_of_int 100, y = double_of_int 100\<rparr>, dir = \<lparr>x = double_of_int 4, y = double_of_int 0\<rparr>, subspaces = [0, 0, 0, 0]\<rparr>,
      \<lparr>radius = 5, pos = \<lparr>x = double_of_int 1193, y = double_of_int 100\<rparr>, dir = \<lparr>x = double_of_int 4, y = double_of_int 0\<rparr>, subspaces = [0, 0, 0, 0]\<rparr>]
     = Inr (cs,
     [\<lparr>radius = 5, pos = \<lparr>x = double_of_int 104, y = double_of_int 100\<rparr>, dir = \<lparr>x = double_of_int 4, y = double_of_int 0\<rparr>, subspaces = [0, 0, 0, 0]\<rparr>,
      \<lparr>radius = 5, pos = \<lparr>x = double_of_int 1194, y = double_of_int 100\<rparr>, dir = \<lparr>x = double_of_int (- 4), y = double_of_int 0\<rparr>, subspaces = [0, 0, 0, 0]\<rparr>])
      \<and> filter is_bounce cs = [])"
  (is "_ \<le> length [?A, ?B] \<and> _")
proof -
  let ?A1 = "\<lparr>radius = 5, pos = \<lparr>x = double_of_int 104, y = double_of_int 100\<rparr>, dir = \<lparr>x = double_of_int 4, y = double_of_int 0\<rparr>, subspaces = [0, 0, 0, 0]\<rparr>"
  let ?B1 = "\<lparr>radius = 5, pos = \<lparr>x = double_of_int 1194, y = double_of_int 100\<rparr>, dir = \<lparr>x = double_of_int (- 4), y = double_of_int 0\<rparr>, subspaces = [0, 0, 0, 0]\<rparr>"
  have adv: "advance ?A = ?A1" "advance ?B = ?B1"
    by (simp_all add: advance_def moveBall_def bounceWall_def SCREEN_WIDTH_def SCREEN_HEIGHT_def
          int_double_simps dmul_minus_one)
  have root: "dsqrt (double_of_int 1194649) = double_of_int 1093"
    "dsqrt (double_of_int 1185921) = double_of_int 1089"
    using dsqrt_int [of 1093] dsqrt_int [of 1089] by simp_all
  have apart: "\<not> overlaps ?A ?B" "\<not> overlaps ?B ?A1"
    by (simp_all add: overlaps_def pyth_def int_double_simps root)
  have len: "nat 2 \<le> length [?A, ?B]"
    by simp
  have quiet: "no_overlap_when_scanned (nat 2) [?A, ?B]"
    using apart by (simp add: no_overlap_when_scanned_def upt_0_2 adv)
  from no_overlap_when_scanned_no_bounce [OF len quiet] len quiet
  show ?thesis
    by (simp add: adv)
qed

subsection \<open>The error of one rounding, relative to the result\<close>

lemma rnd_Fin:
  assumes "rnd z = Fin r"
  shows "val r = round64 z"
proof -
  from assms have b: "\<not> 2 ^ 1024 \<le> round64 z" "\<not> round64 z \<le> - (2 ^ 1024)"
    and r: "r = mk_fin64 (round64 z)"
    by (auto simp add: rnd_def Let_def split: if_splits)
  from b have "\<bar>round64 z\<bar> < 2 ^ 1024" by linarith
  then have "is_double (round64 z)" by (rule round64_is_double)
  then show ?thesis by (simp add: r)
qed

lemma round64_abs_ge:
  assumes "z \<noteq> 0" "- 1022 < exponent z"
  shows "2 powi exponent z \<le> \<bar>round64 z\<bar>"
proof -
  define e where "e = exponent z"
  define M where "M = round_even (z / 2 powi (e - 52))"
  have r: "round64 z = of_int M * 2 powi (e - 52)"
    using assms(1) by (simp add: round64_def M_def e_def)
  have "2 powi e \<le> \<bar>z\<bar>" unfolding e_def using assms by (rule exponent_lower)
  then have "2 powi e / 2 powi (e - 52) \<le> \<bar>z\<bar> / 2 powi (e - 52)"
    by (rule divide_right_mono) simp
  then have "2 ^ 52 \<le> \<bar>z\<bar> / 2 powi (e - 52)"
    by (simp only: powi2_ratio52)
  then have "of_int (2 ^ 52) \<le> \<bar>z / 2 powi (e - 52)\<bar>"
    by (simp add: abs_divide)
  then have "2 ^ 52 \<le> \<bar>M\<bar>" unfolding M_def by (rule round_even_abs_ge)
  then have "real_of_int (2 ^ 52) \<le> of_int \<bar>M\<bar>"
    by (simp only: of_int_le_iff)
  then have "(2 ^ 52 :: real) \<le> of_int \<bar>M\<bar>"
    by simp
  then have "(2::real) ^ 52 * 2 powi (e - 52) \<le> of_int \<bar>M\<bar> * 2 powi (e - 52)"
    by (intro mult_right_mono) simp_all
  then have "(2::real) powi e \<le> of_int \<bar>M\<bar> * 2 powi (e - 52)"
    by (simp only: powi2_52_times)
  then show ?thesis by (simp add: r abs_mult e_def)
qed

lemma round64_error_result:
  "\<bar>round64 z - z\<bar> \<le> \<bar>round64 z\<bar> / 2 ^ 53 + 2 powi (- 1075)"
proof (cases "z \<noteq> 0 \<and> - 1022 < exponent z")
  case True
  then have "2 powi exponent z \<le> \<bar>round64 z\<bar>" by (intro round64_abs_ge) simp_all
  then have "2 powi exponent z / 2 ^ 53 \<le> \<bar>round64 z\<bar> / 2 ^ 53"
    by (rule divide_right_mono) simp
  moreover note powi2_minus53 [of "exponent z"]
  moreover have "0 < (2::real) powi (- 1075)" by (rule powi2_pos)
  ultimately show ?thesis using round64_error_quantum [of z] by linarith
next
  case False
  have p: "0 < (2::real) powi (- 1075)" by (rule powi2_pos)
  show ?thesis
  proof (cases "z = 0")
    case True
    with p show ?thesis by (simp add: round64_def)
  next
    case nz: False
    with False exponent_ge [of z] have "exponent z = - 1022" by simp
    with round64_error_quantum [of z] have "\<bar>round64 z - z\<bar> \<le> 2 powi (- 1075)"
      by simp
    moreover have "0 \<le> \<bar>round64 z\<bar> / 2 ^ 53" by simp
    ultimately show ?thesis by linarith
  qed
qed

lemma rnd_error_result:
  assumes "rnd z = Fin r"
  shows "\<bar>val r - z\<bar> \<le> \<bar>val r\<bar> / 2 ^ 53 + 2 powi (- 1075)"
  using round64_error_result [of z] rnd_Fin [OF assms] by simp

lemma is_finite_iff: "is_finite d \<longleftrightarrow> (\<exists>a. d = Fin a)"
  by (cases d) simp_all

lemma dadd_finiteD:
  assumes "is_finite (dadd u w)"
  obtains a b where "u = Fin a" "w = Fin b" "dadd u w = rnd (val a + val b)"
  using assms by (cases u; cases w) simp_all

lemma dsub_finiteD:
  assumes "is_finite (dsub u w)"
  obtains a b where "u = Fin a" "w = Fin b" "dsub u w = rnd (val a - val b)"
  using assms by (cases u; cases w) simp_all

text \<open>
  One component of the two velocity updates of \<open>bounce\<close>: \<open>u - p\<close> and \<open>w + p\<close> with the
  same \<open>p\<close>, each rounded once.
\<close>

lemma opposite_updates_error:
  assumes "is_finite (dsub u p)" "is_finite (dadd w p)"
  shows "\<bar>(dval (dsub u p) + dval (dadd w p)) - (dval u + dval w)\<bar>
           \<le> (\<bar>dval (dsub u p)\<bar> + \<bar>dval (dadd w p)\<bar>) / 2 ^ 53 + 2 powi (- 1074)"
proof -
  from assms(1) obtain a c where u: "u = Fin a" and p: "p = Fin c"
    and s: "dsub u p = rnd (val a - val c)" by (rule dsub_finiteD)
  from assms(2) obtain b c' where w: "w = Fin b" and p': "p = Fin c'"
    and t: "dadd w p = rnd (val b + val c')" by (rule dadd_finiteD)
  from p p' have c': "c' = c" by simp
  from assms(1) s obtain r1 where r1: "rnd (val a - val c) = Fin r1"
    by (auto simp add: is_finite_iff)
  from assms(2) t obtain r2 where r2: "rnd (val b + val c') = Fin r2"
    by (auto simp add: is_finite_iff)
  have e1: "\<bar>val r1 - (val a - val c)\<bar> \<le> \<bar>val r1\<bar> / 2 ^ 53 + 2 powi (- 1075)"
    using r1 by (rule rnd_error_result)
  have e2: "\<bar>val r2 - (val b + val c)\<bar> \<le> \<bar>val r2\<bar> / 2 ^ 53 + 2 powi (- 1075)"
    using r2 [unfolded c'] by (rule rnd_error_result)
  have two: "(2::real) powi (- 1075) + 2 powi (- 1075) = 2 powi (- 1074)"
    using powi2_double [of "- 1023"] by simp
  have "\<bar>(val r1 + val r2) - (val a + val b)\<bar>
          \<le> \<bar>val r1 - (val a - val c)\<bar> + \<bar>val r2 - (val b + val c)\<bar>"
    by linarith
  also have "\<dots> \<le> (\<bar>val r1\<bar> / 2 ^ 53 + 2 powi (- 1075)) + (\<bar>val r2\<bar> / 2 ^ 53 + 2 powi (- 1075))"
    using e1 e2 by linarith
  also have "\<dots> = (\<bar>val r1\<bar> + \<bar>val r2\<bar>) / 2 ^ 53 + 2 powi (- 1074)"
    using two by (simp add: add_divide_distrib)
  finally have bound: "\<bar>(val r1 + val r2) - (val a + val b)\<bar>
      \<le> (\<bar>val r1\<bar> + \<bar>val r2\<bar>) / 2 ^ 53 + 2 powi (- 1074)" .
  have d1: "dval (dsub u p) = val r1" by (simp only: s r1) simp
  have d2: "dval (dadd w p) = val r2" by (simp only: t r2) simp
  have d3: "dval u = val a" by (simp only: u) simp
  have d4: "dval w = val b" by (simp only: w) simp
  show ?thesis unfolding d1 d2 d3 d4 by (rule bound)
qed

lemma bounce_dir:
  "\<exists>px py.
     x (dir (fst (bounce a b))) = dsub (x (dir a)) px \<and> x (dir (snd (bounce a b))) = dadd (x (dir b)) px
     \<and> y (dir (fst (bounce a b))) = dsub (y (dir a)) py \<and> y (dir (snd (bounce a b))) = dadd (y (dir b)) py"
  by (simp add: bounce_def Let_def) blast

subsection \<open>Reading literals\<close>

lemma dbl_eqI:
  assumes "real_of_int m * 2 powi k = real_of_int m' * 2 powi k'"
  shows "dbl m k = dbl m' k'"
  using assms by (simp add: dbl_def)

lemma dval_dbl:
  assumes "\<bar>m\<bar> < 2 ^ 53" "- 1074 \<le> k" "k \<le> 971"
  shows "dval (dbl m k) = of_int m * 2 powi k"
  using val_dbl [OF assms] by (simp add: dbl_def)

lemma dval_of_int:
  assumes "\<bar>n\<bar> < 2 ^ 53"
  shows "dval (double_of_int n) = of_int n"
  using dval_dbl [of n 0] assms by (simp add: double_of_int_dbl)

lemma is_finite_dbl [simp]: "is_finite (dbl m k)"
  by (simp add: dbl_def)

lemma is_finite_of_int:
  assumes "\<bar>n\<bar> < 2 ^ 53"
  shows "is_finite (double_of_int n)"
  using assms by (simp add: double_of_int_dbl)

text \<open>
  A run with inexact operations: a at (100,100) with velocity (1,-2), b at (101,98) with
  velocity (-2,-4). The centre difference is (1,-2), its length the rounded root of 5.
\<close>

lemma bounce_oblique:
  "bounce \<lparr>radius = ra, pos = \<lparr>x = double_of_int 100, y = double_of_int 100\<rparr>,
        dir = \<lparr>x = double_of_int 1, y = double_of_int (- 2)\<rparr>, subspaces = sa\<rparr>
      \<lparr>radius = rb, pos = \<lparr>x = double_of_int 101, y = double_of_int 98\<rparr>,
        dir = \<lparr>x = double_of_int (- 2), y = double_of_int (- 4)\<rparr>, subspaces = sb\<rparr>
   = (\<lparr>radius = ra, pos = \<lparr>x = double_of_int 100, y = double_of_int 100\<rparr>,
        dir = \<lparr>x = dbl 5404319552844595 (- 52), y = dbl (- 5404319552844595) (- 51)\<rparr>, subspaces = sa\<rparr>,
      \<lparr>radius = rb, pos = \<lparr>x = double_of_int 101, y = double_of_int 98\<rparr>,
        dir = \<lparr>x = dbl (- 2476979795053773) (- 50), y = dbl (- 8106479329266893) (- 51)\<rparr>, subspaces = sb\<rparr>)"
proof -
  have o1: "dsub (dbl 101 0) (dbl 100 0) = dbl 1 0"
    proof -
    have "dsub (dbl 101 0) (dbl 100 0) = rnd (real_of_int 101 * 2 powi 0 - real_of_int 100 * 2 powi 0)"
      by (rule dsub_dbl) simp_all
    also have "\<dots> = dbl 1 0"
      by (rule rnd_dbl) simp_all
    finally show ?thesis .
  qed
  have o2: "dsub (dbl 98 0) (dbl 100 0) = dbl (- 2) 0"
    proof -
    have "dsub (dbl 98 0) (dbl 100 0) = rnd (real_of_int 98 * 2 powi 0 - real_of_int 100 * 2 powi 0)"
      by (rule dsub_dbl) simp_all
    also have "\<dots> = dbl (- 2) 0"
      by (rule rnd_dbl) simp_all
    finally show ?thesis .
  qed
  have o3: "pow_2 (dbl 1 0) = dbl 1 0"
    proof -
    have "pow_2 (dbl 1 0) = rnd ((real_of_int 1 * 2 powi 0)\<^sup>2)"
      by (rule pow_2_dbl) simp_all
    also have "\<dots> = dbl 1 0"
      by (rule rnd_dbl) simp_all
    finally show ?thesis .
  qed
  have o4: "pow_2 (dbl (- 2) 0) = dbl 4 0"
    proof -
    have "pow_2 (dbl (- 2) 0) = rnd ((real_of_int (- 2) * 2 powi 0)\<^sup>2)"
      by (rule pow_2_dbl) simp_all
    also have "\<dots> = dbl 4 0"
      by (rule rnd_dbl) simp_all
    finally show ?thesis .
  qed
  have o5: "dadd (dbl 1 0) (dbl 4 0) = dbl 5 0"
    proof -
    have "dadd (dbl 1 0) (dbl 4 0) = rnd (real_of_int 1 * 2 powi 0 + real_of_int 4 * 2 powi 0)"
      by (rule dadd_dbl) simp_all
    also have "\<dots> = dbl 5 0"
      by (rule rnd_dbl) simp_all
    finally show ?thesis .
  qed
  have o6: "dsqrt (dbl 5 0) = dbl 629397181890197 (- 48)"
    proof -
    have "dsqrt (dbl 5 0) = rnd (sqrt (real_of_int 5 * 2 powi 0))"
      by (rule dsqrt_dbl) simp_all
    also have "\<dots> = dbl 5035177455121576 (- 51)"
      by (rule rnd_sqrt_normal) (simp_all add: power2_eq_square)
    also have "\<dots> = dbl 629397181890197 (- 48)"
      by (rule dbl_eqI) simp
    finally show ?thesis .
  qed
  have o7: "ddiv (dbl 1 0) (dbl 629397181890197 (- 48)) = dbl 8056283928194521 (- 54)"
    proof -
    have "ddiv (dbl 1 0) (dbl 629397181890197 (- 48)) = rnd ((real_of_int 1 * 2 powi 0) / (real_of_int 629397181890197 * 2 powi (- 48)))"
      by (rule ddiv_dbl) simp_all
    also have "\<dots> = dbl 8056283928194521 (- 54)"
      by (rule rnd_normal) simp_all
    finally show ?thesis .
  qed
  have o8: "ddiv (dbl (- 2) 0) (dbl 629397181890197 (- 48)) = dbl (- 8056283928194521) (- 53)"
    proof -
    have "ddiv (dbl (- 2) 0) (dbl 629397181890197 (- 48)) = rnd ((real_of_int (- 2) * 2 powi 0) / (real_of_int 629397181890197 * 2 powi (- 48)))"
      by (rule ddiv_dbl) simp_all
    also have "\<dots> = dbl (- 8056283928194521) (- 53)"
      by (rule rnd_normal) simp_all
    finally show ?thesis .
  qed
  have o9: "dmul (dbl 1 0) (dbl 8056283928194521 (- 54)) = dbl 8056283928194521 (- 54)"
    proof -
    have "dmul (dbl 1 0) (dbl 8056283928194521 (- 54)) = rnd ((real_of_int 1 * 2 powi 0) * (real_of_int 8056283928194521 * 2 powi (- 54)))"
      by (rule dmul_dbl) simp_all
    also have "\<dots> = dbl 8056283928194521 (- 54)"
      by (rule rnd_dbl) simp_all
    finally show ?thesis .
  qed
  have o10: "dmul (dbl (- 2) 0) (dbl (- 8056283928194521) (- 53)) = dbl 8056283928194521 (- 52)"
    proof -
    have "dmul (dbl (- 2) 0) (dbl (- 8056283928194521) (- 53)) = rnd ((real_of_int (- 2) * 2 powi 0) * (real_of_int (- 8056283928194521) * 2 powi (- 53)))"
      by (rule dmul_dbl) simp_all
    also have "\<dots> = dbl 8056283928194521 (- 52)"
      by (rule rnd_dbl) simp_all
    finally show ?thesis .
  qed
  have o11: "dadd (dbl 8056283928194521 (- 54)) (dbl 8056283928194521 (- 52)) = dbl 629397181890197 (- 48)"
    proof -
    have "dadd (dbl 8056283928194521 (- 54)) (dbl 8056283928194521 (- 52)) = rnd (real_of_int 8056283928194521 * 2 powi (- 54) + real_of_int 8056283928194521 * 2 powi (- 52))"
      by (rule dadd_dbl) simp_all
    also have "\<dots> = dbl 5035177455121576 (- 51)"
      by (rule rnd_normal) simp_all
    also have "\<dots> = dbl 629397181890197 (- 48)"
      by (rule dbl_eqI) simp
    finally show ?thesis .
  qed
  have o12: "dmul (dbl (- 2) 0) (dbl 8056283928194521 (- 54)) = dbl (- 8056283928194521) (- 53)"
    proof -
    have "dmul (dbl (- 2) 0) (dbl 8056283928194521 (- 54)) = rnd ((real_of_int (- 2) * 2 powi 0) * (real_of_int 8056283928194521 * 2 powi (- 54)))"
      by (rule dmul_dbl) simp_all
    also have "\<dots> = dbl (- 8056283928194521) (- 53)"
      by (rule rnd_dbl) simp_all
    finally show ?thesis .
  qed
  have o13: "dmul (dbl (- 4) 0) (dbl (- 8056283928194521) (- 53)) = dbl 8056283928194521 (- 51)"
    proof -
    have "dmul (dbl (- 4) 0) (dbl (- 8056283928194521) (- 53)) = rnd ((real_of_int (- 4) * 2 powi 0) * (real_of_int (- 8056283928194521) * 2 powi (- 53)))"
      by (rule dmul_dbl) simp_all
    also have "\<dots> = dbl 8056283928194521 (- 51)"
      by (rule rnd_dbl) simp_all
    finally show ?thesis .
  qed
  have o14: "dadd (dbl (- 8056283928194521) (- 53)) (dbl 8056283928194521 (- 51)) = dbl 6042212946145891 (- 51)"
    proof -
    have "dadd (dbl (- 8056283928194521) (- 53)) (dbl 8056283928194521 (- 51)) = rnd (real_of_int (- 8056283928194521) * 2 powi (- 53) + real_of_int 8056283928194521 * 2 powi (- 51))"
      by (rule dadd_dbl) simp_all
    also have "\<dots> = dbl 6042212946145891 (- 51)"
      by (rule rnd_normal) simp_all
    finally show ?thesis .
  qed
  have o15: "dsub (dbl 629397181890197 (- 48)) (dbl 6042212946145891 (- 51)) = dbl (- 1007035491024315) (- 51)"
    proof -
    have "dsub (dbl 629397181890197 (- 48)) (dbl 6042212946145891 (- 51)) = rnd (real_of_int 629397181890197 * 2 powi (- 48) - real_of_int 6042212946145891 * 2 powi (- 51))"
      by (rule dsub_dbl) simp_all
    also have "\<dots> = dbl (- 1007035491024315) (- 51)"
      by (rule rnd_dbl) simp_all
    finally show ?thesis .
  qed
  have o16: "dmul (dbl (- 1007035491024315) (- 51)) (dbl 8056283928194521 (- 54)) = dbl (- 900719925474099) (- 52)"
    proof -
    have "dmul (dbl (- 1007035491024315) (- 51)) (dbl 8056283928194521 (- 54)) = rnd ((real_of_int (- 1007035491024315) * 2 powi (- 51)) * (real_of_int 8056283928194521 * 2 powi (- 54)))"
      by (rule dmul_dbl) simp_all
    also have "\<dots> = dbl (- 7205759403792792) (- 55)"
      by (rule rnd_normal) simp_all
    also have "\<dots> = dbl (- 900719925474099) (- 52)"
      by (rule dbl_eqI) simp
    finally show ?thesis .
  qed
  have o17: "dsub (dbl 1 0) (dbl (- 900719925474099) (- 52)) = dbl 5404319552844595 (- 52)"
    proof -
    have "dsub (dbl 1 0) (dbl (- 900719925474099) (- 52)) = rnd (real_of_int 1 * 2 powi 0 - real_of_int (- 900719925474099) * 2 powi (- 52))"
      by (rule dsub_dbl) simp_all
    also have "\<dots> = dbl 5404319552844595 (- 52)"
      by (rule rnd_dbl) simp_all
    finally show ?thesis .
  qed
  have o18: "dmul (dbl (- 1007035491024315) (- 51)) (dbl (- 8056283928194521) (- 53)) = dbl 900719925474099 (- 51)"
    proof -
    have "dmul (dbl (- 1007035491024315) (- 51)) (dbl (- 8056283928194521) (- 53)) = rnd ((real_of_int (- 1007035491024315) * 2 powi (- 51)) * (real_of_int (- 8056283928194521) * 2 powi (- 53)))"
      by (rule dmul_dbl) simp_all
    also have "\<dots> = dbl 7205759403792792 (- 54)"
      by (rule rnd_normal) simp_all
    also have "\<dots> = dbl 900719925474099 (- 51)"
      by (rule dbl_eqI) simp
    finally show ?thesis .
  qed
  have o19: "dsub (dbl (- 2) 0) (dbl 900719925474099 (- 51)) = dbl (- 5404319552844595) (- 51)"
    proof -
    have "dsub (dbl (- 2) 0) (dbl 900719925474099 (- 51)) = rnd (real_of_int (- 2) * 2 powi 0 - real_of_int 900719925474099 * 2 powi (- 51))"
      by (rule dsub_dbl) simp_all
    also have "\<dots> = dbl (- 5404319552844595) (- 51)"
      by (rule rnd_dbl) simp_all
    finally show ?thesis .
  qed
  have o21: "dadd (dbl (- 2) 0) (dbl (- 900719925474099) (- 52)) = dbl (- 2476979795053773) (- 50)"
    proof -
    have "dadd (dbl (- 2) 0) (dbl (- 900719925474099) (- 52)) = rnd (real_of_int (- 2) * 2 powi 0 + real_of_int (- 900719925474099) * 2 powi (- 52))"
      by (rule dadd_dbl) simp_all
    also have "\<dots> = dbl (- 4953959590107546) (- 51)"
      by (rule rnd_normal_tie [where n = "(- 4953959590107546)"]) simp_all
    also have "\<dots> = dbl (- 2476979795053773) (- 50)"
      by (rule dbl_eqI) simp
    finally show ?thesis .
  qed
  have o23: "dadd (dbl (- 4) 0) (dbl 900719925474099 (- 51)) = dbl (- 8106479329266893) (- 51)"
    proof -
    have "dadd (dbl (- 4) 0) (dbl 900719925474099 (- 51)) = rnd (real_of_int (- 4) * 2 powi 0 + real_of_int 900719925474099 * 2 powi (- 51))"
      by (rule dadd_dbl) simp_all
    also have "\<dots> = dbl (- 8106479329266893) (- 51)"
      by (rule rnd_dbl) simp_all
    finally show ?thesis .
  qed
  show ?thesis
    unfolding bounce_def norm_vec2_def dot_def Let_def
    by (simp add: double_of_int_dbl o1 o2 o3 o4 o5 o6 o7 o8 o9 o10 o11 o12 o13 o14 o15 o16 o17 o18 o19 o21 o23)
qed

text \<open>
  Claim C1, as stated, fails. In binary64 the two velocity updates \<^verbatim>\<open>a->dir.x -= p\<close> and
  \<^verbatim>\<open>b->dir.x += p\<close> are each rounded, so the sum of the velocities is not kept. For a at
  (100,100) with velocity (1,-2) and b at (101,98) with velocity (-2,-4) (distinct centres),
  \<open>bounce\<close> yields the x velocities 5404319552844595 / 2^52 (the double nearest 1.2) and
  -2476979795053773 / 2^50 (the double nearest -2.2): their sum is -1 - 2^-52, while the sum
  before the call is -1.
\<close>

theorem bounce_momentum_not_conserved:
  "bounce \<lparr>radius = 5, pos = \<lparr>x = double_of_int 100, y = double_of_int 100\<rparr>,
        dir = \<lparr>x = double_of_int 1, y = double_of_int (- 2)\<rparr>, subspaces = [0, 0, 0, 0]\<rparr>
      \<lparr>radius = 5, pos = \<lparr>x = double_of_int 101, y = double_of_int 98\<rparr>,
        dir = \<lparr>x = double_of_int (- 2), y = double_of_int (- 4)\<rparr>, subspaces = [0, 0, 0, 0]\<rparr>
   = (\<lparr>radius = 5, pos = \<lparr>x = double_of_int 100, y = double_of_int 100\<rparr>,
        dir = \<lparr>x = dbl 5404319552844595 (- 52), y = dbl (- 5404319552844595) (- 51)\<rparr>, subspaces = [0, 0, 0, 0]\<rparr>,
      \<lparr>radius = 5, pos = \<lparr>x = double_of_int 101, y = double_of_int 98\<rparr>,
        dir = \<lparr>x = dbl (- 2476979795053773) (- 50), y = dbl (- 8106479329266893) (- 51)\<rparr>, subspaces = [0, 0, 0, 0]\<rparr>)
   \<and> dval (double_of_int 1) + dval (double_of_int (- 2)) = - 1
   \<and> dval (dbl 5404319552844595 (- 52)) + dval (dbl (- 2476979795053773) (- 50)) = - 1 - 1 / 2 ^ 52"
proof -
  have "dval (double_of_int 1) + dval (double_of_int (- 2)) = - 1"
    by (simp add: dval_of_int)
  moreover have "dval (dbl 5404319552844595 (- 52)) + dval (dbl (- 2476979795053773) (- 50)) = - 1 - 1 / 2 ^ 52"
    by (simp add: dval_dbl power_int_minus)
  ultimately show ?thesis
    using bounce_oblique [of 5 "[0, 0, 0, 0]" 5 "[0, 0, 0, 0]"] by simp
qed

text \<open>
  Claim C1, amended. Whenever the four velocity components that \<open>bounce\<close> returns are
  finite, the impulse taken from a is the one given to b (the same double \<open>p\<close> is subtracted
  from a's component and added to b's), and each component of the sum of the two velocities
  differs from its value before the call by at most the two roundings of these updates:
  (|a'.v| + |b'.v|) / 2^53 + 2^-1074.
\<close>

theorem bounce_momentum_up_to_rounding:
  assumes "bounce a b = (a', b')"
    and "is_finite (x (dir a'))" "is_finite (x (dir b'))"
    and "is_finite (y (dir a'))" "is_finite (y (dir b'))"
  shows "\<exists>px py.
      x (dir a') = dsub (x (dir a)) px \<and> x (dir b') = dadd (x (dir b)) px
    \<and> y (dir a') = dsub (y (dir a)) py \<and> y (dir b') = dadd (y (dir b)) py
    \<and> \<bar>(dval (x (dir a')) + dval (x (dir b'))) - (dval (x (dir a)) + dval (x (dir b)))\<bar>
        \<le> (\<bar>dval (x (dir a'))\<bar> + \<bar>dval (x (dir b'))\<bar>) / 2 ^ 53 + 2 powi (- 1074)
    \<and> \<bar>(dval (y (dir a')) + dval (y (dir b'))) - (dval (y (dir a)) + dval (y (dir b)))\<bar>
        \<le> (\<bar>dval (y (dir a'))\<bar> + \<bar>dval (y (dir b'))\<bar>) / 2 ^ 53 + 2 powi (- 1074)"
proof -
  from bounce_dir [of a b] assms(1) obtain px py where
    ax: "x (dir a') = dsub (x (dir a)) px" and bx: "x (dir b') = dadd (x (dir b)) px" and
    ay: "y (dir a') = dsub (y (dir a)) py" and by': "y (dir b') = dadd (y (dir b)) py"
    by auto
  have ex: "\<bar>(dval (x (dir a')) + dval (x (dir b'))) - (dval (x (dir a)) + dval (x (dir b)))\<bar>
        \<le> (\<bar>dval (x (dir a'))\<bar> + \<bar>dval (x (dir b'))\<bar>) / 2 ^ 53 + 2 powi (- 1074)"
    unfolding ax bx using assms(2,3) unfolding ax bx by (rule opposite_updates_error)
  have ey: "\<bar>(dval (y (dir a')) + dval (y (dir b'))) - (dval (y (dir a)) + dval (y (dir b)))\<bar>
        \<le> (\<bar>dval (y (dir a'))\<bar> + \<bar>dval (y (dir b'))\<bar>) / 2 ^ 53 + 2 powi (- 1074)"
    unfolding ay by' using assms(4,5) unfolding ay by' by (rule opposite_updates_error)
  from ax bx ay by' ex ey show ?thesis by blast
qed

theorem bounce_momentum_up_to_rounding_witness:
  "bounce \<lparr>radius = 5, pos = \<lparr>x = double_of_int 100, y = double_of_int 100\<rparr>,
        dir = \<lparr>x = double_of_int 1, y = double_of_int (- 2)\<rparr>, subspaces = [0, 0, 0, 0]\<rparr>
      \<lparr>radius = 5, pos = \<lparr>x = double_of_int 101, y = double_of_int 98\<rparr>,
        dir = \<lparr>x = double_of_int (- 2), y = double_of_int (- 4)\<rparr>, subspaces = [0, 0, 0, 0]\<rparr>
   = (\<lparr>radius = 5, pos = \<lparr>x = double_of_int 100, y = double_of_int 100\<rparr>,
        dir = \<lparr>x = dbl 5404319552844595 (- 52), y = dbl (- 5404319552844595) (- 51)\<rparr>, subspaces = [0, 0, 0, 0]\<rparr>,
      \<lparr>radius = 5, pos = \<lparr>x = double_of_int 101, y = double_of_int 98\<rparr>,
        dir = \<lparr>x = dbl (- 2476979795053773) (- 50), y = dbl (- 8106479329266893) (- 51)\<rparr>, subspaces = [0, 0, 0, 0]\<rparr>)
   \<and> is_finite (dbl 5404319552844595 (- 52)) \<and> is_finite (dbl (- 2476979795053773) (- 50))
   \<and> is_finite (dbl (- 5404319552844595) (- 51)) \<and> is_finite (dbl (- 8106479329266893) (- 51))
   \<and> (\<exists>px py.
      dbl 5404319552844595 (- 52) = dsub (double_of_int 1) px
    \<and> dbl (- 2476979795053773) (- 50) = dadd (double_of_int (- 2)) px
    \<and> dbl (- 5404319552844595) (- 51) = dsub (double_of_int (- 2)) py
    \<and> dbl (- 8106479329266893) (- 51) = dadd (double_of_int (- 4)) py
    \<and> \<bar>(dval (dbl 5404319552844595 (- 52)) + dval (dbl (- 2476979795053773) (- 50)))
          - (dval (double_of_int 1) + dval (double_of_int (- 2)))\<bar>
        \<le> (\<bar>dval (dbl 5404319552844595 (- 52))\<bar> + \<bar>dval (dbl (- 2476979795053773) (- 50))\<bar>) / 2 ^ 53
            + 2 powi (- 1074)
    \<and> \<bar>(dval (dbl (- 5404319552844595) (- 51)) + dval (dbl (- 8106479329266893) (- 51)))
          - (dval (double_of_int (- 2)) + dval (double_of_int (- 4)))\<bar>
        \<le> (\<bar>dval (dbl (- 5404319552844595) (- 51))\<bar> + \<bar>dval (dbl (- 8106479329266893) (- 51))\<bar>) / 2 ^ 53
            + 2 powi (- 1074))"
  (is "bounce ?A ?B = (?A', ?B') \<and> _")
proof -
  have t: "bounce ?A ?B = (?A', ?B')"
    by (rule bounce_oblique)
  have f: "is_finite (x (dir ?A'))" "is_finite (x (dir ?B'))"
      "is_finite (y (dir ?A'))" "is_finite (y (dir ?B'))"
    by simp_all
  from bounce_momentum_up_to_rounding [OF t f] t show ?thesis
    by simp
qed


end
